theory Spec2Isabelle
  imports Main "HOL-Library.Sublist" "HOL-Library.List_Lexorder" "HOL-Library.Char_ord"
    "HOL-Library.AList"
begin

section \<open>Entities, registry and configuration\<close>

text \<open>
  An entity class is known to the repository by identity (here: its name and key) and
  by its static \<^verbatim>\<open>storageKey\<close> property (absent on a class that declares none). An entity record is
  opaque but for the two fields the repository probes: \<^verbatim>\<open>id\<close> and \<^verbatim>\<open>timestamp\<close>.
  Strings are compared by code unit, as JavaScript does; the lexicographic order on
  \<^typ>\<open>string\<close> comes from the list and character orders imported above.
\<close>

record EntityClass =
  class_name :: string
  class_storageKey :: "string option"

record entity =
  ent_class :: EntityClass
  ent_id :: "string option"
  ent_timestamp :: "string option"
  ent_payload :: string

datatype error =
    RegistryRequired
  | NotRegistered string
  | StorageKeyMissing
  | DatabaseInitFailed
  | TypeError
  | UndefinedThrown
  | IOError string

text \<open>JavaScript truthiness of an optional string: \<^verbatim>\<open>undefined\<close> and \<^verbatim>\<open>""\<close> are falsy.\<close>

definition truthy :: "string option \<Rightarrow> bool" where
  "truthy k = (case k of None \<Rightarrow> False | Some v \<Rightarrow> v \<noteq> [])"

record EntityRegistration =
  reg_storageKey :: string
  getCollectionKey :: "entity \<Rightarrow> string"

type_synonym EntityRegistry = "EntityClass \<Rightarrow> EntityRegistration option"

definition register ::
  "EntityClass \<Rightarrow> (entity \<Rightarrow> string) \<Rightarrow> EntityRegistry \<Rightarrow> error + EntityRegistry" where
  "register cls extractor registry =
     (if \<not> truthy (class_storageKey cls) then Inl StorageKeyMissing
      else Inr (registry(cls \<mapsto>
        \<lparr>reg_storageKey = the (class_storageKey cls), getCollectionKey = extractor\<rparr>)))"

definition getRegistrationForInstance ::
  "EntityRegistry \<Rightarrow> entity \<Rightarrow> EntityRegistration option" where
  "getRegistrationForInstance registry e = registry (ent_class e)"

record RepositoryConfig =
  databasePath :: string
  entityRegistry :: "EntityRegistry option"
  enableCaching :: bool
  cacheTTL :: nat
  maxCacheSize :: nat

text \<open>The configuration a caller passes: every field but the path is optional.\<close>

record ConfigInput =
  in_databasePath :: string
  in_entityRegistry :: "EntityRegistry option"
  in_enableCaching :: "bool option"
  in_cacheTTL :: "nat option"
  in_maxCacheSize :: "nat option"

section \<open>Repository state\<close>

type_synonym DatabaseData = "string \<Rightarrow> (string \<Rightarrow> entity list option) option"

datatype cached = CachedList "entity list" | CachedEntity "entity option"

record CacheEntry =
  ce_data :: cached
  expiresAt :: nat
  accessCount :: nat
  lastAccessed :: nat

datatype settlement = Resolved | Rejected error

record PendingWrite =
  pw_collectionKey :: string
  pw_storageKey :: string
  pw_data :: entity
  pw_promise :: nat

text \<open>
  The fields of \<^verbatim>\<open>DatabaseRepository\<close>, followed by the world it talks to. The cache is
  a JavaScript \<^verbatim>\<open>Map\<close>: an association list in insertion order. A pending write holds
  the number of its promise; \<open>promises\<close> logs each \<^verbatim>\<open>resolve\<close> and \<^verbatim>\<open>reject\<close> call in
  the order they are made. \<open>writeTimeout\<close> holds the instant at which the pending timer
  fires. The world: the clock \<open>now\<close> (milliseconds), the backing file \<open>disk\<close>, the error
  \<open>load_error\<close> that opening the file raises (if any), the outcomes \<open>write_script\<close> of the
  coming calls of \<^verbatim>\<open>dbInstance.write()\<close> (an exhausted script means success) and the
  number \<open>write_calls\<close> of such calls so far. The timing metrics (floating point
  averages of elapsed time) are left out.
\<close>

record repo =
  config :: "RepositoryConfig option"
  initialized :: bool
  dbInstance :: "DatabaseData option"
  pendingWrites :: "PendingWrite list"
  writeTimeout :: "nat option"
  isWriting :: bool
  totalWrites :: nat
  batchedWrites :: nat
  cache :: "(string \<times> CacheEntry) list"
  hits :: nat
  misses :: nat
  evictions :: nat
  promises :: "(nat \<times> settlement) list"
  next_promise :: nat
  now :: nat
  disk :: DatabaseData
  load_error :: "error option"
  write_script :: "error option list"
  write_calls :: nat

definition BATCH_DELAY_MS :: nat where "BATCH_DELAY_MS = 50"
definition MAX_BATCH_SIZE :: nat where "MAX_BATCH_SIZE = 100"
definition MAX_RETRIES :: nat where "MAX_RETRIES = 3"
definition RETRY_DELAY_MS :: nat where "RETRY_DELAY_MS = 100"

text \<open>A freshly constructed repository over a given backing file.\<close>

definition new_repo :: "DatabaseData \<Rightarrow> repo" where
  "new_repo file =
     \<lparr>config = None, initialized = False, dbInstance = None, pendingWrites = [],
      writeTimeout = None, isWriting = False, totalWrites = 0, batchedWrites = 0,
      cache = [], hits = 0, misses = 0, evictions = 0, promises = [], next_promise = 0,
      now = 0, disk = file, load_error = None, write_script = [], write_calls = 0\<rparr>"

definition initialize :: "ConfigInput \<Rightarrow> repo \<Rightarrow> repo" where
  "initialize c s =
     s\<lparr>config := Some
          \<lparr>databasePath = in_databasePath c,
           entityRegistry = in_entityRegistry c,
           enableCaching = (case in_enableCaching c of None \<Rightarrow> True | Some b \<Rightarrow> b),
           cacheTTL = (case in_cacheTTL c of None \<Rightarrow> 5 * 60 * 1000 | Some t \<Rightarrow> t),
           maxCacheSize = (case in_maxCacheSize c of None \<Rightarrow> 1000 | Some n \<Rightarrow> n)\<rparr>,
       initialized := True\<rparr>"

definition isInitialized :: "repo \<Rightarrow> bool" where
  "isInitialized s = (initialized s \<and> config s \<noteq> None)"

section \<open>The backing store\<close>

text \<open>
  Every caller passes \<^verbatim>\<open>this.config!.databasePath\<close>: with no configuration that property
  access raises a type error before the call. The file at the path is \<open>disk\<close>.
\<close>

definition load_database :: "repo \<Rightarrow> (error + unit) \<times> repo" where
  "load_database s =
     (if dbInstance s = None then
        (case load_error s of
           Some e \<Rightarrow> (Inl e, s\<lparr>dbInstance := None\<rparr>)
         | None \<Rightarrow> (Inr (), s\<lparr>dbInstance := Some (disk s)\<rparr>))
      else (Inr (), s))"

definition initializeDatabase :: "repo \<Rightarrow> (error + unit) \<times> repo" where
  "initializeDatabase s =
     (case config s of
        None \<Rightarrow> (Inl TypeError, s)
      | Some c \<Rightarrow> load_database s)"

text \<open>\<^verbatim>\<open>dbInstance.write()\<close>: the next outcome of the script decides; a successful call
  copies the in-memory tree to the file.\<close>

definition db_write :: "repo \<Rightarrow> (error + unit) \<times> repo" where
  "db_write s =
     (let s1 = s\<lparr>write_calls := write_calls s + 1, write_script := tl (write_script s)\<rparr> in
      case write_script s of
        Some e # _ \<Rightarrow> (Inl e, s1)
      | _ \<Rightarrow> (Inr (), s1\<lparr>disk := (case dbInstance s of Some d \<Rightarrow> d | None \<Rightarrow> disk s)\<rparr>))"

section \<open>Write batcher\<close>

text \<open>
  The repository runs on one thread of control, its tasks interleaved only where they
  wait. The model runs each operation to completion: a flush is one step, the steps of
  an operation are not interleaved with another caller's, and what runs while an
  operation waits, for a promise or in the sleep before a retry, is the flush timer.
  So no flush is in flight (\<open>isWriting\<close> is false) when an operation starts.
\<close>

definition push_write :: "PendingWrite \<Rightarrow> DatabaseData \<Rightarrow> DatabaseData" where
  "push_write w d =
     (let coll = (case d (pw_collectionKey w) of None \<Rightarrow> Map.empty | Some c \<Rightarrow> c);
          xs = (case coll (pw_storageKey w) of None \<Rightarrow> [] | Some l \<Rightarrow> l)
      in d(pw_collectionKey w \<mapsto> coll(pw_storageKey w \<mapsto> xs @ [pw_data w])))"

definition apply_batch :: "PendingWrite list \<Rightarrow> DatabaseData \<Rightarrow> DatabaseData" where
  "apply_batch batch d = foldl (\<lambda>acc w. push_write w acc) d batch"

definition settle_all :: "settlement \<Rightarrow> PendingWrite list \<Rightarrow> repo \<Rightarrow> repo" where
  "settle_all outcome batch s =
     s\<lparr>promises := promises s @ map (\<lambda>w. (pw_promise w, outcome)) batch\<rparr>"

definition scheduleBatchWrite :: "bool \<Rightarrow> repo \<Rightarrow> repo" where
  "scheduleBatchWrite resetExisting s =
     (if writeTimeout s \<noteq> None \<and> \<not> resetExisting then s
      else s\<lparr>writeTimeout := Some (now s + BATCH_DELAY_MS)\<rparr>)"

text \<open>
  The body of \<^verbatim>\<open>performBatchWrite\<close> between \<^verbatim>\<open>try\<close> and \<^verbatim>\<open>finally\<close>: the batch is pushed
  onto the in-memory tree before the durable write, so a failed write leaves it there.
\<close>

definition batch_body :: "PendingWrite list \<Rightarrow> repo \<Rightarrow> repo" where
  "batch_body batch s =
     (case initializeDatabase s of
        (Inl e, s1) \<Rightarrow> settle_all (Rejected e) batch s1
      | (Inr _, s1) \<Rightarrow>
          (case dbInstance s1 of
             None \<Rightarrow> settle_all (Rejected DatabaseInitFailed) batch s1
           | Some d \<Rightarrow>
               (case db_write (s1\<lparr>dbInstance := Some (apply_batch batch d)\<rparr>) of
                  (Inl e, s2) \<Rightarrow> settle_all (Rejected e) batch s2
                | (Inr _, s2) \<Rightarrow>
                    settle_all Resolved batch
                      (s2\<lparr>totalWrites := totalWrites s2 + 1,
                          batchedWrites := batchedWrites s2 + length batch\<rparr>))))"

definition performBatchWrite :: "repo \<Rightarrow> repo" where
  "performBatchWrite s =
     (if pendingWrites s = [] \<or> isWriting s then s
      else
        let batch = take MAX_BATCH_SIZE (pendingWrites s);
            s1 = batch_body batch
                   (s\<lparr>isWriting := True, pendingWrites := drop MAX_BATCH_SIZE (pendingWrites s)\<rparr>);
            s2 = s1\<lparr>isWriting := False\<rparr>
        in if pendingWrites s2 \<noteq> [] then scheduleBatchWrite False s2 else s2)"

definition storeData :: "string \<Rightarrow> string \<Rightarrow> entity \<Rightarrow> repo \<Rightarrow> nat \<times> repo" where
  "storeData collectionKey storageKey data s =
     (let p = next_promise s;
          s1 = s\<lparr>pendingWrites := pendingWrites s @
                   [\<lparr>pw_collectionKey = collectionKey, pw_storageKey = storageKey,
                     pw_data = data, pw_promise = p\<rparr>],
                 next_promise := p + 1\<rparr>
      in (p, scheduleBatchWrite True s1))"

subsection \<open>Time\<close>

text \<open>
  The callback of the flush timer, and the passing of one millisecond: a timer whose
  instant has come fires. Waiting \<open>d\<close> milliseconds is \<open>d\<close> such steps.
\<close>

definition fire_timeout :: "repo \<Rightarrow> repo" where
  "fire_timeout s = performBatchWrite (s\<lparr>writeTimeout := None\<rparr>)"

definition tick :: "repo \<Rightarrow> repo" where
  "tick s =
     (let s1 = s\<lparr>now := now s + 1\<rparr> in
      case writeTimeout s1 of
        None \<Rightarrow> s1
      | Some d \<Rightarrow> if d \<le> now s1 then fire_timeout s1 else s1)"

primrec advance :: "nat \<Rightarrow> repo \<Rightarrow> repo" where
  "advance 0 s = s"
| "advance (Suc n) s = advance n (tick s)"

definition flushPendingWrites :: "repo \<Rightarrow> repo" where
  "flushPendingWrites s = performBatchWrite (s\<lparr>writeTimeout := None\<rparr>)"

definition settled :: "nat \<Rightarrow> repo \<Rightarrow> settlement option" where
  "settled p s = map_of (promises s) p"


lemma pendingWrites_settle_all [simp]:
  "pendingWrites (settle_all outcome batch s) = pendingWrites s"
  by (simp add: settle_all_def)

lemma writeTimeout_settle_all [simp]:
  "writeTimeout (settle_all outcome batch s) = writeTimeout s"
  by (simp add: settle_all_def)

lemma pendingWrites_batch_body [simp]:
  "pendingWrites (batch_body batch s) = pendingWrites s"
  by (simp add: batch_body_def initializeDatabase_def load_database_def db_write_def Let_def
      split: option.splits list.splits)

lemma writeTimeout_batch_body [simp]:
  "writeTimeout (batch_body batch s) = writeTimeout s"
  by (simp add: batch_body_def initializeDatabase_def load_database_def db_write_def Let_def
      split: option.splits list.splits)

text \<open>
  A caller awaiting the promise of an enqueued write goes on once the promise is
  settled. Nothing but the flush timer can settle it: with no timer pending and the
  promise unsettled the caller waits forever, which is the value \<open>None\<close>.
\<close>

function await_promise :: "nat \<Rightarrow> repo \<Rightarrow> repo option" where
  "await_promise p s =
     (if settled p s \<noteq> None then Some s
      else case writeTimeout s of
             None \<Rightarrow> None
           | Some d \<Rightarrow> await_promise p (fire_timeout (s\<lparr>now := max (now s) d\<rparr>)))"
  by pat_completeness auto
termination
proof (relation "measure (\<lambda>(p, s). 2 * length (pendingWrites s) +
    (if writeTimeout s = None then 0 else 1))")
  show "wf (measure (\<lambda>(p, s). 2 * length (pendingWrites s) +
    (if writeTimeout s = None then 0 else 1)))"
    by simp
next
  fix p :: nat and s :: repo and d :: nat
  assume "writeTimeout s = Some d"
  then show "((p, fire_timeout (s\<lparr>now := max (now s) d\<rparr>)), (p, s)) \<in>
    measure (\<lambda>(p, s). 2 * length (pendingWrites s) + (if writeTimeout s = None then 0 else 1))"
    by (cases "pendingWrites s")
      (auto simp: fire_timeout_def performBatchWrite_def scheduleBatchWrite_def Let_def
        MAX_BATCH_SIZE_def)
qed

declare await_promise.simps [simp del]

definition sleep :: "nat \<Rightarrow> repo \<Rightarrow> repo" where
  "sleep ms s = advance ms s"

section \<open>Retry\<close>

text \<open>
  An operation either never returns (\<open>None\<close>) or returns, with the new state, an error
  (a rejected promise) or a value. \<^verbatim>\<open>executeWithRetry\<close> runs it up to \<open>MAX_RETRIES\<close> times
  and sleeps between two attempts.
\<close>

type_synonym 'a outcome = "((error + 'a) \<times> repo) option"

function executeWithRetry_loop ::
  "nat \<Rightarrow> error option \<Rightarrow> (repo \<Rightarrow> 'a outcome) \<Rightarrow> repo \<Rightarrow> 'a outcome" where
  "executeWithRetry_loop attempt lastError operation s =
     (if attempt \<le> MAX_RETRIES then
        (case operation s of
           None \<Rightarrow> None
         | Some (Inr v, s1) \<Rightarrow> Some (Inr v, s1)
         | Some (Inl e, s1) \<Rightarrow>
             executeWithRetry_loop (attempt + 1) (Some e) operation
               (if attempt < MAX_RETRIES then sleep (RETRY_DELAY_MS * attempt) s1 else s1))
      else Some (Inl (case lastError of Some e \<Rightarrow> e | None \<Rightarrow> UndefinedThrown), s))"
  by pat_completeness auto
termination
  by (relation "measure (\<lambda>(attempt, lastError, operation, s). MAX_RETRIES + 1 - attempt)")
    auto

declare executeWithRetry_loop.simps [simp del]

definition executeWithRetry :: "(repo \<Rightarrow> 'a outcome) \<Rightarrow> repo \<Rightarrow> 'a outcome" where
  "executeWithRetry operation s = executeWithRetry_loop 1 None operation s"

section \<open>Cache layer\<close>

definition getCacheKey :: "string \<Rightarrow> string \<Rightarrow> string option \<Rightarrow> string" where
  "getCacheKey entityType collectionKey sfx =
     (if truthy sfx then entityType @ '':'' @ collectionKey @ '':'' @ the sfx
      else entityType @ '':'' @ collectionKey)"

definition caching :: "repo \<Rightarrow> bool" where
  "caching s = (case config s of None \<Rightarrow> False | Some c \<Rightarrow> enableCaching c)"

definition getFromCache :: "string \<Rightarrow> repo \<Rightarrow> cached option \<times> repo" where
  "getFromCache key s =
     (if \<not> caching s then (None, s)
      else
        case map_of (cache s) key of
          None \<Rightarrow> (None, s\<lparr>misses := misses s + 1\<rparr>)
        | Some entry \<Rightarrow>
            if expiresAt entry < now s then
              (None, s\<lparr>cache := AList.delete key (cache s), misses := misses s + 1\<rparr>)
            else
              (Some (ce_data entry),
               s\<lparr>cache := AList.update key
                    (entry\<lparr>accessCount := accessCount entry + 1, lastAccessed := now s\<rparr>)
                    (cache s),
                 hits := hits s + 1\<rparr>))"

text \<open>
  \<^verbatim>\<open>Math.floor(entries.length * 0.2)\<close> is the integer quotient by 5: the product of a
  size and the double nearest to 0.2 rounds to the exact fifth when the size is a
  multiple of 5, and is not near an integer otherwise. The sort is stable.
\<close>

definition evictOldestEntries :: "repo \<Rightarrow> repo" where
  "evictOldestEntries s =
     (let entries = sort_key (\<lambda>(k, e). lastAccessed e) (cache s);
          toRemove = length entries div 5
      in s\<lparr>cache := foldl (\<lambda>c k. AList.delete k c) (cache s) (map fst (take toRemove entries)),
           evictions := evictions s + toRemove\<rparr>)"

definition setCache :: "string \<Rightarrow> cached \<Rightarrow> repo \<Rightarrow> repo" where
  "setCache key data s =
     (case config s of
        None \<Rightarrow> s
      | Some c \<Rightarrow>
          if \<not> enableCaching c then s
          else
            let s1 = (if length (cache s) \<ge> maxCacheSize c then evictOldestEntries s else s)
            in s1\<lparr>cache := AList.update key
                   \<lparr>ce_data = data, expiresAt = now s + cacheTTL c, accessCount = 1,
                    lastAccessed = now s\<rparr> (cache s1)\<rparr>)"

definition clearCacheByPattern :: "string \<Rightarrow> repo \<Rightarrow> repo" where
  "clearCacheByPattern pattern s =
     (let keysToDelete = filter (\<lambda>key. prefix pattern key) (map fst (cache s))
      in s\<lparr>cache := foldl (\<lambda>c k. AList.delete k c) (cache s) keysToDelete\<rparr>)"

text \<open>
  An array a read hands out is the very array the cache holds, so a caller that
  changes it in place changes the cached value: the entry under \<open>key\<close> gets the new
  contents. With caching off a read returns a fresh copy and nothing is shared. (A
  full rewrite whose durable write fails leaves the tree and the cache sharing the
  array it was given; the model does not follow that sharing further.)
\<close>

definition mutate_cached :: "string \<Rightarrow> entity list \<Rightarrow> repo \<Rightarrow> repo" where
  "mutate_cached key xs s =
     (if caching s then
        s\<lparr>cache := map (\<lambda>(k, e). if k = key then (k, e\<lparr>ce_data := CachedList xs\<rparr>) else (k, e))
                     (cache s)\<rparr>
      else s)"


section \<open>Repository operations\<close>

text \<open>
  A hit under a list key whose payload is no array hands a non-array to the caller
  (keys of the two kinds collide only through a colon inside a collection key); the
  caller's first array method raises the type error, which the model raises at the
  read.
\<close>

definition getAll_op :: "EntityClass \<Rightarrow> string \<Rightarrow> repo \<Rightarrow> entity list outcome" where
  "getAll_op cls collectionKey s =
     (if \<not> truthy (class_storageKey cls) then Some (Inl StorageKeyMissing, s)
      else
        let storageKey = the (class_storageKey cls);
            cacheKey = getCacheKey storageKey collectionKey None
        in case getFromCache cacheKey s of
             (Some (CachedList xs), s1) \<Rightarrow> Some (Inr xs, s1)
           | (Some (CachedEntity (Some e)), s1) \<Rightarrow> Some (Inl TypeError, s1)
           | (_, s1) \<Rightarrow>
               (case initializeDatabase s1 of
                  (Inl e, s2) \<Rightarrow> Some (Inl e, s2)
                | (Inr _, s2) \<Rightarrow>
                    (case dbInstance s2 of
                       None \<Rightarrow> Some (Inl DatabaseInitFailed, s2)
                     | Some d \<Rightarrow>
                         (case d collectionKey of
                            None \<Rightarrow> Some (Inr [], s2)
                          | Some coll \<Rightarrow>
                              (case coll storageKey of
                                 None \<Rightarrow> Some (Inr [], s2)
                               | Some xs \<Rightarrow>
                                   Some (Inr xs, setCache cacheKey (CachedList xs) s2))))))"

definition getAll :: "EntityClass \<Rightarrow> string \<Rightarrow> repo \<Rightarrow> entity list outcome" where
  "getAll cls collectionKey s =
     (if \<not> isInitialized s then Some (Inr [], s)
      else executeWithRetry (getAll_op cls collectionKey) s)"

definition replaceAll_op :: "EntityClass \<Rightarrow> string \<Rightarrow> entity list \<Rightarrow> repo \<Rightarrow> unit outcome" where
  "replaceAll_op cls collectionKey objects s =
     (if \<not> truthy (class_storageKey cls) then Some (Inl StorageKeyMissing, s)
      else
        let storageKey = the (class_storageKey cls) in
        case initializeDatabase s of
          (Inl e, s1) \<Rightarrow> Some (Inl e, s1)
        | (Inr _, s1) \<Rightarrow>
            (case dbInstance s1 of
               None \<Rightarrow> Some (Inl DatabaseInitFailed, s1)
             | Some d \<Rightarrow>
                 let coll = (case d collectionKey of None \<Rightarrow> Map.empty | Some c \<Rightarrow> c);
                     s2 = s1\<lparr>dbInstance := Some (d(collectionKey \<mapsto> coll(storageKey \<mapsto> objects)))\<rparr>
                 in case db_write s2 of
                      (Inl e, s3) \<Rightarrow> Some (Inl e, s3)
                    | (Inr _, s3) \<Rightarrow>
                        Some (Inr (),
                          clearCacheByPattern (getCacheKey storageKey collectionKey None) s3)))"

definition replaceAll :: "EntityClass \<Rightarrow> string \<Rightarrow> entity list \<Rightarrow> repo \<Rightarrow> unit outcome" where
  "replaceAll cls collectionKey objects s =
     (if \<not> isInitialized s then Some (Inr (), s)
      else executeWithRetry (replaceAll_op cls collectionKey objects) s)"

definition deleteById_op :: "EntityClass \<Rightarrow> string \<Rightarrow> string \<Rightarrow> repo \<Rightarrow> bool outcome" where
  "deleteById_op cls collectionKey objectId s =
     (case getAll cls collectionKey s of
        None \<Rightarrow> None
      | Some (Inl e, s1) \<Rightarrow> Some (Inl e, s1)
      | Some (Inr allItems, s1) \<Rightarrow>
          let updatedItems = filter (\<lambda>item. ent_id item \<noteq> Some objectId) allItems in
          if length updatedItems = length allItems then Some (Inr False, s1)
          else
            (case replaceAll cls collectionKey updatedItems s1 of
               None \<Rightarrow> None
             | Some (Inl e, s2) \<Rightarrow> Some (Inl e, s2)
             | Some (Inr _, s2) \<Rightarrow>
                 Some (Inr True,
                   if truthy (class_storageKey cls) then
                     clearCacheByPattern
                       (getCacheKey (the (class_storageKey cls)) collectionKey None) s2
                   else s2)))"

definition deleteById :: "EntityClass \<Rightarrow> string \<Rightarrow> string \<Rightarrow> repo \<Rightarrow> bool outcome" where
  "deleteById cls collectionKey objectId s =
     (if \<not> isInitialized s then Some (Inr False, s)
      else executeWithRetry (deleteById_op cls collectionKey objectId) s)"

definition deleteUnique :: "EntityClass \<Rightarrow> string \<Rightarrow> string \<Rightarrow> repo \<Rightarrow> bool outcome" where
  "deleteUnique cls collectionKey objectId s = deleteById cls collectionKey objectId s"

text \<open>
  \<^verbatim>\<open>purgeStaleItems\<close> takes its cutoff from the \<^verbatim>\<open>Date\<close> library: the local time of the
  call, set back by \<open>maxAgeHours\<close> hours and printed in ISO format. That computation is
  the parameter \<open>cutoffISO\<close>, a function of the clock and of the age. A record without a
  \<^verbatim>\<open>timestamp\<close> compares as not newer.
\<close>

definition is_fresh :: "string \<Rightarrow> entity \<Rightarrow> bool" where
  "is_fresh cutoffTimestamp item =
     (case ent_timestamp item of None \<Rightarrow> False | Some t \<Rightarrow> t > cutoffTimestamp)"

definition purgeStaleItems_op ::
  "(nat \<Rightarrow> nat \<Rightarrow> string) \<Rightarrow> EntityClass \<Rightarrow> string \<Rightarrow> nat \<Rightarrow> repo \<Rightarrow> nat outcome" where
  "purgeStaleItems_op cutoffISO cls collectionKey maxAgeHours s =
     (if \<not> truthy (class_storageKey cls) then Some (Inl StorageKeyMissing, s)
      else
        case getAll cls collectionKey s of
          None \<Rightarrow> None
        | Some (Inl e, s1) \<Rightarrow> Some (Inl e, s1)
        | Some (Inr allItems, s1) \<Rightarrow>
            let cutoffTimestamp = cutoffISO (now s1) maxAgeHours;
                freshItems = filter (is_fresh cutoffTimestamp) allItems;
                purgedCount = length allItems - length freshItems
            in if purgedCount > 0 then
                 (case replaceAll cls collectionKey freshItems s1 of
                    None \<Rightarrow> None
                  | Some (Inl e, s2) \<Rightarrow> Some (Inl e, s2)
                  | Some (Inr _, s2) \<Rightarrow> Some (Inr purgedCount, s2))
               else Some (Inr purgedCount, s1))"

definition purgeStaleItems ::
  "(nat \<Rightarrow> nat \<Rightarrow> string) \<Rightarrow> EntityClass \<Rightarrow> string \<Rightarrow> nat \<Rightarrow> repo \<Rightarrow> nat outcome" where
  "purgeStaleItems cutoffISO cls collectionKey maxAgeHours s =
     (if \<not> isInitialized s then Some (Inr 0, s)
      else executeWithRetry (purgeStaleItems_op cutoffISO cls collectionKey maxAgeHours) s)"

subsection \<open>Enqueued writes\<close>

definition await_write :: "nat \<Rightarrow> repo \<Rightarrow> unit outcome" where
  "await_write p s =
     (case await_promise p s of
        None \<Rightarrow> None
      | Some s1 \<Rightarrow>
          (case settled p s1 of
             Some (Rejected e) \<Rightarrow> Some (Inl e, s1)
           | _ \<Rightarrow> Some (Inr (), s1)))"

definition store_op :: "entity \<Rightarrow> repo \<Rightarrow> unit outcome" where
  "store_op object s =
     (case (case config s of None \<Rightarrow> None | Some c \<Rightarrow> entityRegistry c) of
        None \<Rightarrow> Some (Inl RegistryRequired, s)
      | Some registry \<Rightarrow>
          (case getRegistrationForInstance registry object of
             None \<Rightarrow> Some (Inl (NotRegistered (class_name (ent_class object))), s)
           | Some registration \<Rightarrow>
               let collectionKey = getCollectionKey registration object;
                   storageKey = reg_storageKey registration
               in case storeData collectionKey storageKey object s of
                    (p, s1) \<Rightarrow>
                      (case await_write p s1 of
                         None \<Rightarrow> None
                       | Some (Inl e, s2) \<Rightarrow> Some (Inl e, s2)
                       | Some (Inr _, s2) \<Rightarrow>
                           Some (Inr (),
                             clearCacheByPattern (getCacheKey storageKey collectionKey None) s2))))"

definition store :: "entity \<Rightarrow> repo \<Rightarrow> unit outcome" where
  "store object s =
     (if \<not> isInitialized s then Some (Inr (), s) else executeWithRetry (store_op object) s)"

text \<open>A stored collection object is an opaque record that knows its collection key.\<close>

definition storeCollection_op :: "string \<Rightarrow> string \<Rightarrow> entity \<Rightarrow> repo \<Rightarrow> unit outcome" where
  "storeCollection_op storageKey collectionKey collection s =
     (case storeData collectionKey storageKey collection s of
        (p, s1) \<Rightarrow> await_write p s1)"

definition storeCollection :: "string \<Rightarrow> string \<Rightarrow> entity \<Rightarrow> repo \<Rightarrow> unit outcome" where
  "storeCollection storageKey collectionKey collection s =
     (if \<not> isInitialized s then Some (Inr (), s)
      else executeWithRetry (storeCollection_op storageKey collectionKey collection) s)"

fun findIndex :: "('a \<Rightarrow> bool) \<Rightarrow> 'a list \<Rightarrow> nat option" where
  "findIndex P [] = None"
| "findIndex P (x # xs) =
     (if P x then Some 0 else (case findIndex P xs of None \<Rightarrow> None | Some i \<Rightarrow> Some (Suc i)))"

definition storeUnique_op :: "entity \<Rightarrow> repo \<Rightarrow> bool outcome" where
  "storeUnique_op object s =
     (case (case config s of None \<Rightarrow> None | Some c \<Rightarrow> entityRegistry c) of
        None \<Rightarrow> Some (Inl RegistryRequired, s)
      | Some registry \<Rightarrow>
          (case getRegistrationForInstance registry object of
             None \<Rightarrow> Some (Inl (NotRegistered (class_name (ent_class object))), s)
           | Some registration \<Rightarrow>
               let collectionKey = getCollectionKey registration object;
                   storageKey = reg_storageKey registration;
                   cacheKey = getCacheKey storageKey collectionKey None
               in case getAll (ent_class object) collectionKey s of
                    None \<Rightarrow> None
                  | Some (Inl e, s1) \<Rightarrow> Some (Inl e, s1)
                  | Some (Inr allItems, s1) \<Rightarrow>
                      (case findIndex (\<lambda>item. ent_id item = ent_id object) allItems of
                         Some existingIndex \<Rightarrow>
                           let updated = allItems[existingIndex := object];
                               s2 = mutate_cached
                                      (getCacheKey (the (class_storageKey (ent_class object)))
                                         collectionKey None) updated s1
                           in (case replaceAll (ent_class object) collectionKey updated s2 of
                                 None \<Rightarrow> None
                               | Some (Inl e, s3) \<Rightarrow> Some (Inl e, s3)
                               | Some (Inr _, s3) \<Rightarrow> Some (Inr True, clearCacheByPattern cacheKey s3))
                       | None \<Rightarrow>
                           (case storeData collectionKey storageKey object s1 of
                              (p, s2) \<Rightarrow>
                                (case await_write p s2 of
                                   None \<Rightarrow> None
                                 | Some (Inl e, s3) \<Rightarrow> Some (Inl e, s3)
                                 | Some (Inr _, s3) \<Rightarrow>
                                     Some (Inr False, clearCacheByPattern cacheKey s3))))))"

definition storeUnique :: "entity \<Rightarrow> repo \<Rightarrow> bool outcome" where
  "storeUnique object s =
     (if \<not> isInitialized s then Some (Inr False, s)
      else executeWithRetry (storeUnique_op object) s)"


subsection \<open>Query engine\<close>

record QueryOptions =
  q_filter :: "(entity \<Rightarrow> bool) option"
  q_sort :: "(entity \<Rightarrow> entity \<Rightarrow> int) option"
  q_limit :: "nat option"
  q_offset :: "nat option"

record QueryResult =
  entities :: "entity list"
  totalCount :: nat
  hasMore :: bool
  executionTimeMs :: nat

text \<open>
  \<^verbatim>\<open>Array.prototype.sort\<close> with a comparator: a stable sort, where a positive result
  puts the first argument after the second. (For a comparator that is no consistent
  order the language leaves the result to the implementation.)
\<close>

fun insert_sorted :: "('a \<Rightarrow> 'a \<Rightarrow> int) \<Rightarrow> 'a \<Rightarrow> 'a list \<Rightarrow> 'a list" where
  "insert_sorted cmp x [] = [x]"
| "insert_sorted cmp x (y # ys) =
     (if cmp x y \<le> 0 then x # y # ys else y # insert_sorted cmp x ys)"

definition js_sort :: "('a \<Rightarrow> 'a \<Rightarrow> int) \<Rightarrow> 'a list \<Rightarrow> 'a list" where
  "js_sort cmp xs = foldr (insert_sorted cmp) xs []"

definition query :: "EntityClass \<Rightarrow> string \<Rightarrow> QueryOptions \<Rightarrow> repo \<Rightarrow> QueryResult outcome" where
  "query cls collectionKey options s =
     (case getAll cls collectionKey s of
        None \<Rightarrow> None
      | Some (Inl e, s1) \<Rightarrow> Some (Inl e, s1)
      | Some (Inr all_entities, s1) \<Rightarrow>
          let total = length all_entities;
              filtered = (case q_filter options of
                            Some f \<Rightarrow> filter f all_entities | None \<Rightarrow> all_entities);
              sorted_entities = (case q_sort options of
                          Some cmp \<Rightarrow> js_sort cmp filtered | None \<Rightarrow> filtered);
              s2 = (if isInitialized s \<and> q_filter options = None \<and> q_sort options \<noteq> None then
                      mutate_cached
                        (getCacheKey (the (class_storageKey cls)) collectionKey None)
                        sorted_entities s1
                    else s1);
              offset = (case q_offset options of None \<Rightarrow> 0 | Some n \<Rightarrow> n);
              page = (case q_limit options of
                        Some limit \<Rightarrow> take limit (drop offset sorted_entities)
                      | None \<Rightarrow> if offset > 0 then drop offset sorted_entities
                                else sorted_entities)
          in Some (Inr \<lparr>entities = page, totalCount = total,
                        hasMore = (case q_limit options of
                                     Some limit \<Rightarrow> offset + limit < total | None \<Rightarrow> False),
                        executionTimeMs = now s2 - now s\<rparr>, s2))"

text \<open>\<^verbatim>\<open>getById\<close> returns whatever truthy value the cache holds under its key.\<close>

definition getById :: "EntityClass \<Rightarrow> string \<Rightarrow> string \<Rightarrow> repo \<Rightarrow> cached outcome" where
  "getById cls collectionKey entityId s =
     (if \<not> truthy (class_storageKey cls) then Some (Inl StorageKeyMissing, s)
      else
        let cacheKey = getCacheKey (the (class_storageKey cls)) collectionKey (Some entityId)
        in case getFromCache cacheKey s of
             (Some (CachedList xs), s1) \<Rightarrow> Some (Inr (CachedList xs), s1)
           | (Some (CachedEntity (Some e)), s1) \<Rightarrow> Some (Inr (CachedEntity (Some e)), s1)
           | (_, s1) \<Rightarrow>
               (case getAll cls collectionKey s1 of
                  None \<Rightarrow> None
                | Some (Inl e, s2) \<Rightarrow> Some (Inl e, s2)
                | Some (Inr allEntities, s2) \<Rightarrow>
                    let found = find (\<lambda>e. ent_id e = Some entityId) allEntities
                    in Some (Inr (CachedEntity found),
                             setCache cacheKey (CachedEntity found) s2)))"

subsection \<open>Reading an outcome\<close>



definition state_of :: "'a outcome \<Rightarrow> repo option" where
  "state_of r = map_option snd r"

text \<open>The stored list of a storage key under a collection key, as the in-memory tree has it.\<close>

definition stored :: "string \<Rightarrow> string \<Rightarrow> repo \<Rightarrow> entity list option" where
  "stored collectionKey storageKey s =
     (case dbInstance s of
        None \<Rightarrow> None
      | Some d \<Rightarrow> (case d collectionKey of None \<Rightarrow> None | Some coll \<Rightarrow> coll storageKey))"

section \<open>A small repository for examples\<close>

definition Score :: EntityClass where
  "Score = \<lparr>class_name = ''Score'', class_storageKey = Some ''scores''\<rparr>"

definition score :: "string \<Rightarrow> string \<Rightarrow> string \<Rightarrow> entity" where
  "score i ts v = \<lparr>ent_class = Score, ent_id = Some i, ent_timestamp = Some ts, ent_payload = v\<rparr>"

definition demo_registry :: EntityRegistry where
  "demo_registry = Map.empty(Score \<mapsto> \<lparr>reg_storageKey = ''scores'', getCollectionKey = (\<lambda>e. ''g1'')\<rparr>)"

definition demo_config :: ConfigInput where
  "demo_config = \<lparr>in_databasePath = ''db.json'', in_entityRegistry = Some demo_registry,
     in_enableCaching = None, in_cacheTTL = None, in_maxCacheSize = None\<rparr>"

definition demo_file :: "entity list \<Rightarrow> DatabaseData" where
  "demo_file xs = Map.empty(''g1'' \<mapsto> Map.empty(''scores'' \<mapsto> xs))"

definition demo_repo :: "entity list \<Rightarrow> repo" where
  "demo_repo xs = initialize demo_config (new_repo (demo_file xs))"


primrec enqueue_many :: "nat \<Rightarrow> string \<Rightarrow> string \<Rightarrow> entity \<Rightarrow> repo \<Rightarrow> repo" where
  "enqueue_many 0 ck sk d s = s"
| "enqueue_many (Suc n) ck sk d s = enqueue_many n ck sk d (snd (storeData ck sk d s))"

lemmas demo_defs = demo_repo_def initialize_def new_repo_def demo_config_def demo_file_def
  Score_def demo_registry_def score_def

lemmas read_defs = getAll_def isInitialized_def executeWithRetry_def
  executeWithRetry_loop.simps MAX_RETRIES_def getAll_op_def truthy_def getCacheKey_def
  getFromCache_def caching_def initializeDatabase_def load_database_def setCache_def Let_def

section \<open>Retry and time: basic facts\<close>

lemma executeWithRetry_first:
  "operation s = Some (Inr v, s1) \<Longrightarrow> executeWithRetry operation s = Some (Inr v, s1)"
  unfolding executeWithRetry_def
  by (subst executeWithRetry_loop.simps) (simp add: MAX_RETRIES_def)

lemma executeWithRetry_hang:
  "operation s = None \<Longrightarrow> executeWithRetry operation s = None"
  unfolding executeWithRetry_def
  by (subst executeWithRetry_loop.simps) (simp add: MAX_RETRIES_def)

lemma advance_idle:
  "writeTimeout s = Some d \<Longrightarrow> now s + n < d \<Longrightarrow> advance n s = s\<lparr>now := now s + n\<rparr>"
proof (induction n arbitrary: s)
  case 0
  then show ?case by simp
next
  case (Suc n)
  have t: "tick s = s\<lparr>now := now s + 1\<rparr>"
    using Suc.prems by (simp add: tick_def Let_def)
  have "advance n (tick s) = (tick s)\<lparr>now := now (tick s) + n\<rparr>"
    by (rule Suc.IH) (use Suc.prems t in simp_all)
  then show ?case by (simp add: t)
qed

lemma advance_Suc_right: "advance (Suc n) s = tick (advance n s)"
  by (induction n arbitrary: s) simp_all

lemma storeData_fields:
  "writeTimeout (snd (storeData ck sk d s)) = Some (now s + BATCH_DELAY_MS)"
  "now (snd (storeData ck sk d s)) = now s"
  "write_calls (snd (storeData ck sk d s)) = write_calls s"
  "length (pendingWrites (snd (storeData ck sk d s))) = Suc (length (pendingWrites s))"
  by (simp_all add: storeData_def scheduleBatchWrite_def Let_def)

lemma enqueue_many_now: "now (enqueue_many n ck sk d s) = now s"
  by (induction n arbitrary: s) (simp_all add: storeData_fields)

lemma enqueue_many_write_calls: "write_calls (enqueue_many n ck sk d s) = write_calls s"
  by (induction n arbitrary: s) (simp_all add: storeData_fields)

lemma enqueue_many_length:
  "length (pendingWrites (enqueue_many n ck sk d s)) = length (pendingWrites s) + n"
  by (induction n arbitrary: s) (simp_all add: storeData_fields)

lemma enqueue_many_timeout:
  "writeTimeout (enqueue_many (Suc n) ck sk d s) = Some (now s + BATCH_DELAY_MS)"
proof (induction n arbitrary: s)
  case 0
  show ?case by (simp add: storeData_fields)
next
  case (Suc n)
  have "writeTimeout (enqueue_many (Suc n) ck sk d (snd (storeData ck sk d s)))
      = Some (now (snd (storeData ck sk d s)) + BATCH_DELAY_MS)"
    by (rule Suc.IH)
  then show ?case by (simp add: storeData_fields)
qed

section \<open>Query engine: result and count\<close>

text \<open>The sort keeps the elements and, for a comparator that is a total preorder,
  puts them in order.\<close>

lemma set_insert_sorted: "set (insert_sorted cmp x xs) = insert x (set xs)"
  by (induction xs) auto

lemma length_insert_sorted: "length (insert_sorted cmp x xs) = Suc (length xs)"
  by (induction xs) auto

lemma set_js_sort: "set (js_sort cmp xs) = set xs"
  by (induction xs) (simp_all add: js_sort_def set_insert_sorted)

lemma length_js_sort: "length (js_sort cmp xs) = length xs"
  by (induction xs) (simp_all add: js_sort_def length_insert_sorted)

lemma sorted_insert_sorted:
  assumes total: "\<And>a b. cmp a b \<le> 0 \<or> cmp b a \<le> 0"
    and trans: "\<And>a b c. cmp a b \<le> 0 \<Longrightarrow> cmp b c \<le> 0 \<Longrightarrow> cmp a c \<le> 0"
  shows "sorted_wrt (\<lambda>a b. cmp a b \<le> 0) xs \<Longrightarrow>
         sorted_wrt (\<lambda>a b. cmp a b \<le> 0) (insert_sorted cmp x xs)"
proof (induction xs)
  case Nil
  show ?case by simp
next
  case (Cons y ys)
  show ?case
  proof (cases "cmp x y \<le> 0")
    case True
    with Cons.prems trans show ?thesis by auto
  next
    case False
    with total have "cmp y x \<le> 0" by blast
    with Cons False show ?thesis by (auto simp: set_insert_sorted)
  qed
qed

lemma sorted_js_sort:
  assumes "\<And>a b. cmp a b \<le> 0 \<or> cmp b a \<le> 0"
    and "\<And>a b c. cmp a b \<le> 0 \<Longrightarrow> cmp b c \<le> 0 \<Longrightarrow> cmp a c \<le> 0"
  shows "sorted_wrt (\<lambda>a b. cmp a b \<le> 0) (js_sort cmp xs)"
proof (induction xs)
  case Nil
  show ?case by (simp add: js_sort_def)
next
  case (Cons x xs)
  have "js_sort cmp (x # xs) = insert_sorted cmp x (js_sort cmp xs)"
    by (simp add: js_sort_def)
  with Cons show ?case
    using sorted_insert_sorted [of cmp "js_sort cmp xs" x] assms by simp
qed





section \<open>Write batcher: the debounce window\<close>

text \<open>
  C2 (as amended). An enqueue arms the flush timer 50 ms ahead, whether or not a timer
  was pending: the first enqueue after quiescence starts it and every further one
  resets it. For less than 50 ms after the last enqueue nothing happens but the
  passing of time, however many items are queued; at 50 ms the timer's callback runs
  and, unless a flush is in flight, drains the first 100 queued items. The cap of 100
  bounds the batch a flush drains: reaching it does not end the window.
\<close>

theorem debounce_window:
  assumes "n < BATCH_DELAY_MS" and "\<not> isWriting s"
  shows "writeTimeout (snd (storeData ck sk d s)) = Some (now s + BATCH_DELAY_MS)
    \<and> advance n (snd (storeData ck sk d s)) = (snd (storeData ck sk d s))\<lparr>now := now s + n\<rparr>
    \<and> advance BATCH_DELAY_MS (snd (storeData ck sk d s))
        = fire_timeout ((snd (storeData ck sk d s))\<lparr>now := now s + BATCH_DELAY_MS\<rparr>)
    \<and> pendingWrites (advance BATCH_DELAY_MS (snd (storeData ck sk d s)))
        = drop MAX_BATCH_SIZE (pendingWrites (snd (storeData ck sk d s)))"
proof -
  let ?s1 = "snd (storeData ck sk d s)"
  have idle: "advance k ?s1 = ?s1\<lparr>now := now s + k\<rparr>" if "k < BATCH_DELAY_MS" for k
    using advance_idle [of ?s1 "now s + BATCH_DELAY_MS" k] that by (simp add: storeData_fields)
  have "advance BATCH_DELAY_MS ?s1 = tick (advance 49 ?s1)"
    using advance_Suc_right [of 49 ?s1] by (simp add: BATCH_DELAY_MS_def)
  also have "\<dots> = tick (?s1\<lparr>now := now s + 49\<rparr>)"
    using idle [of 49] by (simp add: BATCH_DELAY_MS_def)
  also have "\<dots> = fire_timeout (?s1\<lparr>now := now s + BATCH_DELAY_MS\<rparr>)"
    by (simp add: tick_def Let_def storeData_fields BATCH_DELAY_MS_def add.commute)
  finally have fire: "advance BATCH_DELAY_MS ?s1
      = fire_timeout (?s1\<lparr>now := now s + BATCH_DELAY_MS\<rparr>)" .
  have p: "pendingWrites (fire_timeout (?s1\<lparr>now := now s + BATCH_DELAY_MS\<rparr>))
      = drop MAX_BATCH_SIZE (pendingWrites ?s1)"
    using assms(2)
    by (simp add: storeData_def scheduleBatchWrite_def Let_def fire_timeout_def
        performBatchWrite_def)
  show ?thesis
    using idle [OF assms(1)] p by (simp add: storeData_fields fire)
qed

theorem debounce_window_witness:
  "(49::nat) < BATCH_DELAY_MS \<and> \<not> isWriting (demo_repo [])
   \<and> writeTimeout (snd (storeData ''g1'' ''scores'' (score ''u1'' ''t'' ''a'') (demo_repo [])))
       = Some 50
   \<and> pendingWrites (advance 49
        (snd (storeData ''g1'' ''scores'' (score ''u1'' ''t'' ''a'') (demo_repo []))))
       = [\<lparr>pw_collectionKey = ''g1'', pw_storageKey = ''scores'',
           pw_data = score ''u1'' ''t'' ''a'', pw_promise = 0\<rparr>]
   \<and> pendingWrites (advance BATCH_DELAY_MS
        (snd (storeData ''g1'' ''scores'' (score ''u1'' ''t'' ''a'') (demo_repo [])))) = []"
proof -
  have a: "(49::nat) < BATCH_DELAY_MS" by (simp add: BATCH_DELAY_MS_def)
  have b: "\<not> isWriting (demo_repo [])" by (simp add: demo_defs)
  let ?s1 = "snd (storeData ''g1'' ''scores'' (score ''u1'' ''t'' ''a'') (demo_repo []))"
  note w = debounce_window [OF a b, of "''g1''" "''scores''" "score ''u1'' ''t'' ''a''"]
  have n0: "now (demo_repo []) = 0" by (simp add: demo_defs)
  have t: "writeTimeout ?s1 = Some 50"
    using conjunct1 [OF w] n0 by (simp add: BATCH_DELAY_MS_def)
  have p: "pendingWrites ?s1 = [\<lparr>pw_collectionKey = ''g1'', pw_storageKey = ''scores'',
           pw_data = score ''u1'' ''t'' ''a'', pw_promise = 0\<rparr>]"
    by (simp add: storeData_def scheduleBatchWrite_def Let_def demo_repo_def initialize_def
        new_repo_def)
  have p49: "pendingWrites (advance 49 ?s1) = pendingWrites ?s1"
    using conjunct1 [OF conjunct2 [OF w]] by simp
  have p50: "pendingWrites (advance BATCH_DELAY_MS ?s1) = []"
    using conjunct2 [OF conjunct2 [OF conjunct2 [OF w]]] p by (simp add: MAX_BATCH_SIZE_def)
  show ?thesis
    using a b t p p49 p50 by simp
qed

text \<open>
  A hundred items enqueued at once, and one more 49 ms later: at 98 ms, with the queue
  beyond the cap since the start, no durable write has been issued and all 101 items
  are still queued.
\<close>

theorem cap_reached_window_open_counterexample:
  "length (pendingWrites (advance 49 (snd (storeData ''g1'' ''scores'' (score ''u1'' ''t'' ''a'')
      (advance 49 (enqueue_many 100 ''g1'' ''scores'' (score ''u1'' ''t'' ''a'') (demo_repo []))))))) = 101
   \<and> write_calls (advance 49 (snd (storeData ''g1'' ''scores'' (score ''u1'' ''t'' ''a'')
      (advance 49 (enqueue_many 100 ''g1'' ''scores'' (score ''u1'' ''t'' ''a'') (demo_repo [])))))) = 0
   \<and> now (advance 49 (snd (storeData ''g1'' ''scores'' (score ''u1'' ''t'' ''a'')
      (advance 49 (enqueue_many 100 ''g1'' ''scores'' (score ''u1'' ''t'' ''a'') (demo_repo [])))))) = 98"
proof -
  let ?x = "score ''u1'' ''t'' ''a''"
  let ?q = "enqueue_many 100 ''g1'' ''scores'' ?x (demo_repo [])"
  have q_now: "now ?q = 0"
    by (simp add: enqueue_many_now demo_defs)
  have q_timer: "writeTimeout ?q = Some 50"
    using enqueue_many_timeout [of 99 "''g1''" "''scores''" ?x "demo_repo []"]
    by (simp add: demo_defs BATCH_DELAY_MS_def)
  have a1: "advance 49 ?q = ?q\<lparr>now := 49\<rparr>"
    using advance_idle [of ?q 50 49] q_now q_timer by simp
  let ?r = "snd (storeData ''g1'' ''scores'' ?x (?q\<lparr>now := 49\<rparr>))"
  have r_timer: "writeTimeout ?r = Some 99"
    by (simp add: storeData_fields BATCH_DELAY_MS_def)
  have a2: "advance 49 ?r = ?r\<lparr>now := 98\<rparr>"
    using advance_idle [of ?r 99 49] r_timer by (simp add: storeData_fields)
  have len: "length (pendingWrites ?r) = 101"
    by (simp add: storeData_fields enqueue_many_length demo_defs)
  have wc: "write_calls ?r = 0"
    by (simp add: storeData_fields enqueue_many_write_calls demo_defs)
  show ?thesis
    by (simp only: a1 a2) (simp add: len wc)
qed


section \<open>What every operation leaves alone\<close>

text \<open>
  The store is reliable when opening the file cannot fail and no coming durable write
  fails. No operation touches the configuration, and none makes a reliable store
  unreliable.
\<close>

definition reliable :: "repo \<Rightarrow> bool" where
  "reliable s = (write_script s = [] \<and> load_error s = None)"

definition same_setup :: "repo \<Rightarrow> repo \<Rightarrow> bool" where
  "same_setup s s' = (config s' = config s \<and> initialized s' = initialized s \<and>
     load_error s' = load_error s \<and> (write_script s = [] \<longrightarrow> write_script s' = []))"















section \<open>Invalidation, reads after a miss, full rewrites\<close>


lemma reliable_same_setup: "same_setup s s' \<Longrightarrow> reliable s \<Longrightarrow> reliable s'"
  by (simp add: same_setup_def reliable_def)

lemma caching_same_setup: "same_setup s s' \<Longrightarrow> caching s' = caching s"
  by (simp add: same_setup_def caching_def)

lemma foldl_delete_filter:
  "foldl (\<lambda>c k. AList.delete k c) c ks = filter (\<lambda>(k, e). k \<notin> set ks) c"
proof (induction ks arbitrary: c)
  case Nil
  show ?case by simp
next
  case (Cons k ks)
  have "foldl (\<lambda>c k. AList.delete k c) c (k # ks)
      = filter (\<lambda>(k', e). k' \<notin> set ks) (AList.delete k c)"
    by (simp add: Cons.IH)
  also have "\<dots> = filter (\<lambda>(k', e). k' \<notin> set (k # ks)) c"
    by (auto simp: AList.delete_eq intro: filter_cong)
  finally show ?case .
qed

lemma cache_clearCacheByPattern:
  "cache (clearCacheByPattern p s) = filter (\<lambda>(k, e). \<not> prefix p k) (cache s)"
  by (simp add: clearCacheByPattern_def Let_def foldl_delete_filter)
     (rule filter_cong, force+)

lemma clearCacheByPattern_fields [simp]:
  "dbInstance (clearCacheByPattern p s) = dbInstance s"
  "config (clearCacheByPattern p s) = config s"
  "initialized (clearCacheByPattern p s) = initialized s"
  "write_calls (clearCacheByPattern p s) = write_calls s"
  "write_script (clearCacheByPattern p s) = write_script s"
  "load_error (clearCacheByPattern p s) = load_error s"
  "pendingWrites (clearCacheByPattern p s) = pendingWrites s"
  "now (clearCacheByPattern p s) = now s"
  "disk (clearCacheByPattern p s) = disk s"
  by (simp_all add: clearCacheByPattern_def Let_def)

lemma map_of_cleared:
  "prefix p k \<Longrightarrow> map_of (cache (clearCacheByPattern p s)) k = None"
  by (simp add: cache_clearCacheByPattern map_of_eq_None_iff image_iff)


lemma replaceAll_reliable:
  assumes "isInitialized s" and "reliable s" and "truthy (class_storageKey cls)"
  shows "\<exists>s'. replaceAll cls ck xs s = Some (Inr (), s')
     \<and> stored ck (the (class_storageKey cls)) s' = Some xs
     \<and> cache s' = filter (\<lambda>(k, e). \<not> prefix (getCacheKey (the (class_storageKey cls)) ck None) k) (cache s)
     \<and> write_calls s' = write_calls s + 1
     \<and> disk s' = the (dbInstance s')
     \<and> same_setup s s'"
proof -
  let ?key = "getCacheKey (the (class_storageKey cls)) ck None"
  have "\<exists>s'. replaceAll_op cls ck xs s = Some (Inr (), s')
     \<and> stored ck (the (class_storageKey cls)) s' = Some xs
     \<and> cache s' = filter (\<lambda>(k, e). \<not> prefix ?key k) (cache s)
     \<and> write_calls s' = write_calls s + 1
     \<and> disk s' = the (dbInstance s')
     \<and> same_setup s s'"
    using assms
    by (cases "dbInstance s")
      (auto simp add: replaceAll_op_def Let_def initializeDatabase_def load_database_def
        db_write_def reliable_def isInitialized_def stored_def cache_clearCacheByPattern
        same_setup_def)
  then show ?thesis
    using assms(1) by (auto simp: replaceAll_def executeWithRetry_first)
qed





section \<open>Deleting by id\<close>





section \<open>Before initialization\<close>

text \<open>
  C10. Before \<^verbatim>\<open>initialize\<close> has been called, the operations of the repository return a
  neutral value, raise nothing and leave the state as it is: \<^verbatim>\<open>store\<close>,
  \<^verbatim>\<open>storeCollection\<close> and \<^verbatim>\<open>replaceAll\<close> resolve doing nothing, \<^verbatim>\<open>getAll\<close> returns the
  empty list, \<^verbatim>\<open>deleteById\<close>, \<^verbatim>\<open>deleteUnique\<close> and \<^verbatim>\<open>storeUnique\<close> return false,
  \<^verbatim>\<open>purgeStaleItems\<close> returns 0, and \<^verbatim>\<open>query\<close> returns the empty result.
\<close>

theorem uninitialized_is_silent:
  assumes "\<not> isInitialized s"
  shows "store object s = Some (Inr (), s)
    \<and> storeCollection storageKey ck object s = Some (Inr (), s)
    \<and> replaceAll cls ck objects s = Some (Inr (), s)
    \<and> getAll cls ck s = Some (Inr [], s)
    \<and> deleteById cls ck objectId s = Some (Inr False, s)
    \<and> deleteUnique cls ck objectId s = Some (Inr False, s)
    \<and> storeUnique object s = Some (Inr False, s)
    \<and> purgeStaleItems cutoffISO cls ck maxAgeHours s = Some (Inr 0, s)
    \<and> query cls ck options s
        = Some (Inr \<lparr>entities = [], totalCount = 0, hasMore = False, executionTimeMs = 0\<rparr>, s)"
  using assms
  by (simp add: store_def storeCollection_def replaceAll_def getAll_def deleteById_def
      deleteUnique_def storeUnique_def purgeStaleItems_def query_def js_sort_def Let_def
      split: option.splits)

theorem uninitialized_is_silent_witness:
  "\<not> isInitialized (new_repo Map.empty)
   \<and> store (score ''u1'' ''t'' ''a'') (new_repo Map.empty) = Some (Inr (), new_repo Map.empty)
   \<and> getAll Score ''g1'' (new_repo Map.empty) = Some (Inr [], new_repo Map.empty)
   \<and> deleteById Score ''g1'' ''u1'' (new_repo Map.empty) = Some (Inr False, new_repo Map.empty)
   \<and> storeUnique (score ''u1'' ''t'' ''a'') (new_repo Map.empty) = Some (Inr False, new_repo Map.empty)
   \<and> purgeStaleItems (\<lambda>t h. ''2024'') Score ''g1'' 168 (new_repo Map.empty)
       = Some (Inr 0, new_repo Map.empty)"
proof -
  have u: "\<not> isInitialized (new_repo Map.empty)"
    by (simp add: isInitialized_def new_repo_def)
  show ?thesis
    using u uninitialized_is_silent [OF u] by simp
qed

section \<open>Purging stale items\<close>




section \<open>Flushing over a reliable store\<close>

text \<open>The tree a flush starts from: the in-memory one, or the file's when none is loaded.\<close>

definition tree :: "repo \<Rightarrow> DatabaseData" where
  "tree s = (case dbInstance s of Some d \<Rightarrow> d | None \<Rightarrow> disk s)"

lemma performBatchWrite_reliable:
  assumes "\<not> isWriting s" and "pendingWrites s \<noteq> []" and "reliable s" and "config s \<noteq> None"
  shows "pendingWrites (performBatchWrite s) = drop MAX_BATCH_SIZE (pendingWrites s)"
    and "dbInstance (performBatchWrite s)
          = Some (apply_batch (take MAX_BATCH_SIZE (pendingWrites s)) (tree s))"
    and "disk (performBatchWrite s)
          = apply_batch (take MAX_BATCH_SIZE (pendingWrites s)) (tree s)"
    and "write_calls (performBatchWrite s) = write_calls s + 1"
    and "totalWrites (performBatchWrite s) = totalWrites s + 1"
    and "promises (performBatchWrite s)
          = promises s @ map (\<lambda>w. (pw_promise w, Resolved)) (take MAX_BATCH_SIZE (pendingWrites s))"
    and "writeTimeout (performBatchWrite s)
          = (if drop MAX_BATCH_SIZE (pendingWrites s) \<noteq> [] \<and> writeTimeout s = None
             then Some (now s + BATCH_DELAY_MS) else writeTimeout s)"
    and "\<not> isWriting (performBatchWrite s)"
    and "cache (performBatchWrite s) = cache s"
    and "now (performBatchWrite s) = now s"
    and "next_promise (performBatchWrite s) = next_promise s"
    and "reliable (performBatchWrite s)"
    and "config (performBatchWrite s) = config s"
    and "initialized (performBatchWrite s) = initialized s"
  using assms
  by (cases "dbInstance s";
      auto simp add: performBatchWrite_def Let_def batch_body_def initializeDatabase_def
        load_database_def db_write_def settle_all_def scheduleBatchWrite_def reliable_def tree_def)+


lemma apply_batch_append: "apply_batch (xs @ ys) d = apply_batch ys (apply_batch xs d)"
  by (simp add: apply_batch_def)

lemma map_of_const:
  "map_of (map (\<lambda>w. (f w, c)) ws) k = (if k \<in> f ` set ws then Some c else None)"
  by (induction ws) auto

lemma settled_append:
  "settled p s = None \<Longrightarrow>
   map_of (promises s @ map (\<lambda>w. (pw_promise w, Resolved)) ws) p
     = (if p \<in> pw_promise ` set ws then Some Resolved else None)"
  by (simp add: settled_def map_add_def map_of_const)

lemma await_drains:
  assumes "\<not> isWriting s" and "reliable s" and "writeTimeout s \<noteq> None"
    and "pendingWrites s = q @ [w]"
    and "settled (pw_promise w) s = None" and "pw_promise w \<notin> pw_promise ` set q"
    and "config s \<noteq> None"
  shows "\<exists>s'. await_promise (pw_promise w) s = Some s'
      \<and> pendingWrites s' = []
      \<and> dbInstance s' = Some (apply_batch (q @ [w]) (tree s))
      \<and> disk s' = apply_batch (q @ [w]) (tree s)
      \<and> write_calls s' = write_calls s + (length q + MAX_BATCH_SIZE) div MAX_BATCH_SIZE
      \<and> promises s' = promises s @ map (\<lambda>x. (pw_promise x, Resolved)) (q @ [w])
      \<and> cache s' = cache s \<and> reliable s' \<and> \<not> isWriting s'
      \<and> config s' = config s \<and> initialized s' = initialized s
      \<and> next_promise s' = next_promise s"
  using assms
proof (induction "length q" arbitrary: s q rule: less_induct)
  case less
  obtain d where d: "writeTimeout s = Some d" using less.prems(3) by auto
  let ?s0 = "s\<lparr>now := max (now s) d, writeTimeout := None\<rparr>"
  let ?P = "performBatchWrite ?s0"
  have pre: "\<not> isWriting ?s0" "pendingWrites ?s0 \<noteq> []" "reliable ?s0" "config ?s0 \<noteq> None"
    using less.prems by (simp_all add: reliable_def)
  note P = performBatchWrite_reliable [OF pre]
  have unfold: "await_promise (pw_promise w) s = await_promise (pw_promise w) ?P"
    using less.prems(5) d
    by (subst await_promise.simps) (simp add: fire_timeout_def)
  have tree0: "tree ?s0 = tree s" by (simp add: tree_def split: option.splits)
  have set0: "settled (pw_promise w) ?s0 = None"
    using less.prems(5) by (simp add: settled_def)
  show ?case
  proof (cases "length q < MAX_BATCH_SIZE")
    case True
    then have tk: "take MAX_BATCH_SIZE (q @ [w]) = q @ [w]"
      and dr: "drop MAX_BATCH_SIZE (q @ [w]) = []" by simp_all
    have "settled (pw_promise w) ?P = Some Resolved"
      using settled_append [OF set0, of "q @ [w]"] P(6)
      by (simp del: take_append drop_append add: settled_def less.prems(4) tk)
    then have "await_promise (pw_promise w) ?P = Some ?P"
      by (subst await_promise.simps) simp
    moreover have "(length q + MAX_BATCH_SIZE) div MAX_BATCH_SIZE = 1"
      using True by (simp add: MAX_BATCH_SIZE_def)
    ultimately show ?thesis
      using P unfold
      by (simp del: take_append drop_append add: less.prems(4) tk dr tree0)
  next
    case False
    let ?q' = "drop MAX_BATCH_SIZE q"
    have tk: "take MAX_BATCH_SIZE (q @ [w]) = take MAX_BATCH_SIZE q"
      and dr: "drop MAX_BATCH_SIZE (q @ [w]) = ?q' @ [w]"
      using False by simp_all
    have len: "length ?q' < length q"
      using False by (simp add: MAX_BATCH_SIZE_def)
    have q1: "\<not> isWriting ?P" using P(8) .
    have q2: "reliable ?P" using P(12) .
    have q3: "writeTimeout ?P \<noteq> None"
      using P(7) by (simp del: take_append drop_append add: less.prems(4) dr)
    have q4: "pendingWrites ?P = ?q' @ [w]"
      using P(1) by (simp del: take_append drop_append add: less.prems(4) dr)
    have q5: "settled (pw_promise w) ?P = None"
    proof -
      have "pw_promise w \<notin> pw_promise ` set (take MAX_BATCH_SIZE q)"
        using less.prems(6) by (auto dest: in_set_takeD)
      then show ?thesis
        using settled_append [OF set0, of "take MAX_BATCH_SIZE q"] P(6)
        by (simp del: take_append drop_append add: settled_def less.prems(4) tk)
    qed
    have q6: "pw_promise w \<notin> pw_promise ` set ?q'"
      using less.prems(6) by (auto dest: in_set_dropD)
    have q7: "config ?P \<noteq> None"
      using P(13) less.prems(7) by simp
    from less.hyps [OF len q1 q2 q3 q4 q5 q6 q7]
    obtain s' where s': "await_promise (pw_promise w) ?P = Some s'
      \<and> pendingWrites s' = []
      \<and> dbInstance s' = Some (apply_batch (?q' @ [w]) (tree ?P))
      \<and> disk s' = apply_batch (?q' @ [w]) (tree ?P)
      \<and> write_calls s' = write_calls ?P + (length ?q' + MAX_BATCH_SIZE) div MAX_BATCH_SIZE
      \<and> promises s' = promises ?P @ map (\<lambda>x. (pw_promise x, Resolved)) (?q' @ [w])
      \<and> cache s' = cache ?P \<and> reliable s' \<and> \<not> isWriting s'
      \<and> config s' = config ?P \<and> initialized s' = initialized ?P
      \<and> next_promise s' = next_promise ?P" ..
    have treeP: "tree ?P = apply_batch (take MAX_BATCH_SIZE q) (tree s)"
      using P(2)
      by (simp del: take_append drop_append add: tree_def less.prems(4) tk split: option.splits)
    have batch: "apply_batch (?q' @ [w]) (tree ?P) = apply_batch (q @ [w]) (tree s)"
    proof -
      have "apply_batch (q @ [w]) (tree s)
          = apply_batch ((take MAX_BATCH_SIZE q @ ?q') @ [w]) (tree s)" by simp
      also have "\<dots> = apply_batch (?q' @ [w]) (apply_batch (take MAX_BATCH_SIZE q) (tree s))"
        by (simp only: apply_batch_append append_assoc)
      finally show ?thesis by (simp add: treeP)
    qed
    have cnt: "1 + (length ?q' + MAX_BATCH_SIZE) div MAX_BATCH_SIZE
        = (length q + MAX_BATCH_SIZE) div MAX_BATCH_SIZE"
      using False by (simp add: MAX_BATCH_SIZE_def)
    have prom: "promises ?P @ map (\<lambda>x. (pw_promise x, Resolved)) (?q' @ [w])
        = promises s @ map (\<lambda>x. (pw_promise x, Resolved)) (q @ [w])"
    proof -
      have "map (\<lambda>x. (pw_promise x, Resolved)) (take MAX_BATCH_SIZE q)
            @ map (\<lambda>x. (pw_promise x, Resolved)) ?q'
          = map (\<lambda>x. (pw_promise x, Resolved)) q"
        by (simp only: map_append [symmetric] append_take_drop_id)
      then show ?thesis
        using P(6) by (simp del: take_append drop_append add: less.prems(4) tk)
    qed
    show ?thesis
      using s' unfold P(4,9,13,14,11) batch cnt prom by (simp add: less.prems(4))
  qed
qed


text \<open>The list under a storage key of a collection key, empty when absent, and the
  pending writes that go to it.\<close>

definition list_at :: "string \<Rightarrow> string \<Rightarrow> DatabaseData \<Rightarrow> entity list" where
  "list_at ck sk d =
     (case d ck of None \<Rightarrow> [] | Some coll \<Rightarrow> (case coll sk of None \<Rightarrow> [] | Some xs \<Rightarrow> xs))"

definition targets :: "string \<Rightarrow> string \<Rightarrow> PendingWrite \<Rightarrow> bool" where
  "targets ck sk w = (pw_collectionKey w = ck \<and> pw_storageKey w = sk)"

lemma list_at_push_write:
  "list_at ck sk (push_write w d) = list_at ck sk d @ (if targets ck sk w then [pw_data w] else [])"
  by (simp add: list_at_def push_write_def targets_def Let_def split: option.splits)

lemma list_at_apply_batch:
  "list_at ck sk (apply_batch ws d) = list_at ck sk d @ map pw_data (filter (targets ck sk) ws)"
proof (induction ws arbitrary: d)
  case Nil
  show ?case by (simp add: apply_batch_def)
next
  case (Cons w ws)
  have "apply_batch (w # ws) d = apply_batch ws (push_write w d)"
    by (simp add: apply_batch_def)
  then show ?case
    by (simp add: Cons.IH list_at_push_write)
qed

lemma stored_apply_batch:
  assumes "dbInstance s = Some (apply_batch ws d)" and "\<exists>w \<in> set ws. targets ck sk w"
  shows "stored ck sk s = Some (list_at ck sk d @ map pw_data (filter (targets ck sk) ws))"
proof -
  have "\<exists>xs. stored ck sk s = Some xs"
    using assms
  proof (induction ws arbitrary: d s rule: rev_induct)
    case Nil
    then show ?case by simp
  next
    case (snoc w ws)
    show ?case
    proof (cases "targets ck sk w")
      case True
      then show ?thesis
        using snoc.prems(1)
        by (simp add: stored_def apply_batch_def push_write_def targets_def Let_def)
    next
      case False
      then have ex: "\<exists>w \<in> set ws. targets ck sk w" using snoc.prems(2) by auto
      have "\<exists>xs. stored ck sk (s\<lparr>dbInstance := Some (apply_batch ws d)\<rparr>) = Some xs"
        by (rule snoc.IH [OF _ ex]) simp
      then show ?thesis
        using snoc.prems(1) False
        by (auto simp: stored_def apply_batch_def push_write_def targets_def Let_def
            split: option.splits)
    qed
  qed
  then obtain xs where xs: "stored ck sk s = Some xs" ..
  then have "list_at ck sk (apply_batch ws d) = xs"
    using assms(1) by (auto simp: stored_def list_at_def split: option.splits)
  then show ?thesis
    using xs by (simp add: list_at_apply_batch)
qed

lemma enqueue_many_pending:
  "pendingWrites (enqueue_many n ck sk d s) = pendingWrites s @
     map (\<lambda>i. \<lparr>pw_collectionKey = ck, pw_storageKey = sk, pw_data = d,
                pw_promise = next_promise s + i\<rparr>) [0..<n]"
proof (induction n arbitrary: s)
  case 0
  show ?case by simp
next
  case (Suc n)
  let ?s1 = "snd (storeData ck sk d s)"
  have p: "pendingWrites ?s1 = pendingWrites s @
      [\<lparr>pw_collectionKey = ck, pw_storageKey = sk, pw_data = d, pw_promise = next_promise s\<rparr>]"
    and np: "next_promise ?s1 = next_promise s + 1"
    by (simp_all add: storeData_def scheduleBatchWrite_def Let_def)
  have "[0..<Suc n] = 0 # map Suc [0..<n]"
    by (simp add: upt_conv_Cons map_Suc_upt del: upt_Suc)
  then show ?case
    by (simp add: Suc.IH p np comp_def del: upt_Suc)
qed

lemma enqueue_many_keeps:
  "promises (enqueue_many n ck sk d s) = promises s"
  "isWriting (enqueue_many n ck sk d s) = isWriting s"
  "dbInstance (enqueue_many n ck sk d s) = dbInstance s"
  "disk (enqueue_many n ck sk d s) = disk s"
  "write_script (enqueue_many n ck sk d s) = write_script s"
  "load_error (enqueue_many n ck sk d s) = load_error s"
  "config (enqueue_many n ck sk d s) = config s"
  "initialized (enqueue_many n ck sk d s) = initialized s"
  by (induction n arbitrary: s; simp add: storeData_def scheduleBatchWrite_def Let_def)+


section \<open>Write batcher: flushes\<close>

text \<open>
  C5. Over a reliable store, with no flush in flight and the timer pending, a flush
  (the timer's callback) drains the first 100 queued items as one batch, applies them
  to the in-memory tree in enqueue order, issues exactly one durable write and
  resolves the futures of the batch in order; if items remain, the follow-up flush is
  scheduled at once (its timer is armed 50 ms ahead). The caller awaiting the last of
  \<open>N\<close> queued writes goes on after exactly \<open>\<lceil>N/100\<rceil>\<close> durable writes, with the queue empty,
  every future resolved in enqueue order, and every list holding what it held followed
  by the records queued for it, in order: none lost, none twice.
\<close>

theorem flush_drains_in_batches:
  assumes "\<not> isWriting s" and "reliable s" and "writeTimeout s \<noteq> None"
    and "pendingWrites s = q @ [w]"
    and "settled (pw_promise w) s = None" and "pw_promise w \<notin> pw_promise ` set q"
    and "isInitialized s"
  shows "pendingWrites (fire_timeout s) = drop MAX_BATCH_SIZE (pendingWrites s)
    \<and> dbInstance (fire_timeout s)
        = Some (apply_batch (take MAX_BATCH_SIZE (pendingWrites s)) (tree s))
    \<and> write_calls (fire_timeout s) = write_calls s + 1
    \<and> promises (fire_timeout s)
        = promises s @ map (\<lambda>x. (pw_promise x, Resolved)) (take MAX_BATCH_SIZE (pendingWrites s))
    \<and> writeTimeout (fire_timeout s)
        = (if drop MAX_BATCH_SIZE (pendingWrites s) \<noteq> [] then Some (now s + BATCH_DELAY_MS)
           else None)
    \<and> (\<exists>s'. await_promise (pw_promise w) s = Some s'
          \<and> pendingWrites s' = []
          \<and> write_calls s' = write_calls s + (length (pendingWrites s) + 99) div 100
          \<and> promises s' = promises s @ map (\<lambda>x. (pw_promise x, Resolved)) (pendingWrites s)
          \<and> dbInstance s' = Some (apply_batch (pendingWrites s) (tree s))
          \<and> (\<forall>ck sk. list_at ck sk (apply_batch (pendingWrites s) (tree s))
                = list_at ck sk (tree s) @ map pw_data (filter (targets ck sk) (pendingWrites s))))"
proof -
  let ?s0 = "s\<lparr>writeTimeout := None\<rparr>"
  have cfg: "config s \<noteq> None" using assms(7) by (simp add: isInitialized_def)
  have pre: "\<not> isWriting ?s0" "pendingWrites ?s0 \<noteq> []" "reliable ?s0" "config ?s0 \<noteq> None"
    using assms cfg by (simp_all add: reliable_def)
  note P = performBatchWrite_reliable [OF pre]
  have tree0: "tree ?s0 = tree s" by (simp add: tree_def split: option.splits)
  have one: "pendingWrites (fire_timeout s) = drop MAX_BATCH_SIZE (pendingWrites s)
    \<and> dbInstance (fire_timeout s)
        = Some (apply_batch (take MAX_BATCH_SIZE (pendingWrites s)) (tree s))
    \<and> write_calls (fire_timeout s) = write_calls s + 1
    \<and> promises (fire_timeout s)
        = promises s @ map (\<lambda>x. (pw_promise x, Resolved)) (take MAX_BATCH_SIZE (pendingWrites s))
    \<and> writeTimeout (fire_timeout s)
        = (if drop MAX_BATCH_SIZE (pendingWrites s) \<noteq> [] then Some (now s + BATCH_DELAY_MS)
           else None)"
    using P(1,2,4,6,7) tree0 unfolding fire_timeout_def by simp
  from await_drains [OF assms(1,2,3,4,5,6) cfg]
  obtain s' where s': "await_promise (pw_promise w) s = Some s'
      \<and> pendingWrites s' = []
      \<and> dbInstance s' = Some (apply_batch (q @ [w]) (tree s))
      \<and> disk s' = apply_batch (q @ [w]) (tree s)
      \<and> write_calls s' = write_calls s + (length q + MAX_BATCH_SIZE) div MAX_BATCH_SIZE
      \<and> promises s' = promises s @ map (\<lambda>x. (pw_promise x, Resolved)) (q @ [w])
      \<and> cache s' = cache s \<and> reliable s' \<and> \<not> isWriting s'
      \<and> config s' = config s \<and> initialized s' = initialized s
      \<and> next_promise s' = next_promise s" ..
  have cnt: "(length q + MAX_BATCH_SIZE) div MAX_BATCH_SIZE = (length (q @ [w]) + 99) div 100"
    by (simp add: MAX_BATCH_SIZE_def)
  have "await_promise (pw_promise w) s = Some s'
          \<and> pendingWrites s' = []
          \<and> write_calls s' = write_calls s + (length (pendingWrites s) + 99) div 100
          \<and> promises s' = promises s @ map (\<lambda>x. (pw_promise x, Resolved)) (pendingWrites s)
          \<and> dbInstance s' = Some (apply_batch (pendingWrites s) (tree s))
          \<and> (\<forall>ck sk. list_at ck sk (apply_batch (pendingWrites s) (tree s))
                = list_at ck sk (tree s) @ map pw_data (filter (targets ck sk) (pendingWrites s)))"
    using s' cnt unfolding assms(4) by (simp only: list_at_apply_batch) simp
  then show ?thesis
    using one by blast
qed

theorem flush_drains_in_batches_witness:
  "\<exists>s'. \<not> isWriting (enqueue_many 101 ''g1'' ''scores'' (score ''u1'' ''t'' ''a'') (demo_repo []))
     \<and> reliable (enqueue_many 101 ''g1'' ''scores'' (score ''u1'' ''t'' ''a'') (demo_repo []))
     \<and> writeTimeout (enqueue_many 101 ''g1'' ''scores'' (score ''u1'' ''t'' ''a'') (demo_repo [])) = Some 50
     \<and> length (pendingWrites (enqueue_many 101 ''g1'' ''scores'' (score ''u1'' ''t'' ''a'') (demo_repo []))) = 101
     \<and> await_promise 100 (enqueue_many 101 ''g1'' ''scores'' (score ''u1'' ''t'' ''a'') (demo_repo []))
         = Some s'
     \<and> pendingWrites s' = [] \<and> write_calls s' = 2
     \<and> length (list_at ''g1'' ''scores'' (the (dbInstance s'))) = 101"
proof -
  let ?x = "score ''u1'' ''t'' ''a''"
  let ?s = "enqueue_many 101 ''g1'' ''scores'' ?x (demo_repo [])"
  let ?mk = "\<lambda>i. \<lparr>pw_collectionKey = ''g1'', pw_storageKey = ''scores'', pw_data = ?x,
                pw_promise = i\<rparr>"
  have np: "next_promise (demo_repo []) = 0" and p0: "pendingWrites (demo_repo []) = []"
    and wc: "write_calls (demo_repo []) = 0" and n0: "now (demo_repo []) = 0"
    by (simp_all add: demo_defs)
  have h1: "\<not> isWriting ?s" by (simp add: enqueue_many_keeps demo_defs)
  have h2: "reliable ?s" by (simp add: reliable_def enqueue_many_keeps demo_defs)
  have h3: "writeTimeout ?s = Some 50"
    using enqueue_many_timeout [of 100 "''g1''" "''scores''" ?x "demo_repo []"]
    by (simp add: n0 BATCH_DELAY_MS_def)
  have h3': "writeTimeout ?s \<noteq> None" using h3 by simp
  have pend: "pendingWrites ?s = map ?mk [0..<101]"
    by (simp only: enqueue_many_pending np p0) simp
  have u: "[0..<101] = [0..<100] @ [100::nat]"
    using upt_Suc_append [of 0 100] by (simp del: upt_Suc upt_rec_numeral)
  have h4: "pendingWrites ?s = map ?mk [0..<100] @ [?mk 100]"
    unfolding pend u by (simp del: upt_Suc upt_rec_numeral)
  have h5: "settled (pw_promise (?mk 100)) ?s = None"
    by (simp add: settled_def enqueue_many_keeps demo_defs)
  have h6: "pw_promise (?mk 100) \<notin> pw_promise ` set (map ?mk [0..<100])"
    by (simp add: image_iff)
  have len: "length (pendingWrites ?s) = 101" by (simp add: pend)
  have tr: "list_at ''g1'' ''scores'' (tree ?s) = []"
    by (simp add: tree_def list_at_def enqueue_many_keeps demo_defs)
  have tg: "filter (targets ''g1'' ''scores'') (map ?mk [0..<101]) = map ?mk [0..<101]"
    by (simp add: filter_id_conv targets_def)
  have h7: "isInitialized ?s"
    by (simp add: isInitialized_def enqueue_many_keeps demo_defs)
  from flush_drains_in_batches [OF h1 h2 h3' h4 h5 h6 h7]
  obtain s' where a: "await_promise (pw_promise (?mk 100)) ?s = Some s'"
    and b: "pendingWrites s' = []"
    and c: "write_calls s' = write_calls ?s + (length (pendingWrites ?s) + 99) div 100"
    and d: "dbInstance s' = Some (apply_batch (pendingWrites ?s) (tree ?s))"
    and e: "\<forall>ck sk. list_at ck sk (apply_batch (pendingWrites ?s) (tree ?s))
                = list_at ck sk (tree ?s) @ map pw_data (filter (targets ck sk) (pendingWrites ?s))"
    by blast
  have c': "write_calls s' = 2"
    using c by (simp add: len enqueue_many_write_calls wc)
  have e': "length (list_at ''g1'' ''scores'' (the (dbInstance s'))) = 101"
    using e [rule_format, of "''g1''" "''scores''"] d tr
    by (simp only: pend tg) simp
  show ?thesis
    using h1 h2 h3 len a b c' e' by auto
qed


section \<open>Enqueued writes over a reliable store\<close>

text \<open>
  Promise numbers are handed out in order: every number in the queue or in the log is
  below the next one. A cached read of a collection is coherent when it holds the list
  the tree holds.
\<close>

definition wf_promises :: "repo \<Rightarrow> bool" where
  "wf_promises s = ((\<forall>w \<in> set (pendingWrites s). pw_promise w < next_promise s)
     \<and> (\<forall>x \<in> set (promises s). fst x < next_promise s))"

definition coherent :: "string \<Rightarrow> string \<Rightarrow> repo \<Rightarrow> bool" where
  "coherent ck sk s = (\<forall>entry. map_of (cache s) (getCacheKey sk ck None) = Some entry
     \<longrightarrow> ce_data entry = CachedList (list_at ck sk (tree s)))"

lemma list_at_stored:
  "dbInstance s \<noteq> None \<Longrightarrow>
   list_at ck sk (tree s) = (case stored ck sk s of None \<Rightarrow> [] | Some xs \<Rightarrow> xs)"
  by (auto simp: list_at_def tree_def stored_def split: option.splits)

lemma getAll_coherent:
  assumes "isInitialized s" and "reliable s" and "class_storageKey cls = Some sk" and "sk \<noteq> []"
    and "coherent ck sk s"
  shows "\<exists>s1. getAll cls ck s = Some (Inr (list_at ck sk (tree s)), s1)
     \<and> tree s1 = tree s \<and> pendingWrites s1 = pendingWrites s \<and> isWriting s1 = isWriting s
     \<and> promises s1 = promises s \<and> next_promise s1 = next_promise s
     \<and> write_calls s1 = write_calls s \<and> writeTimeout s1 = writeTimeout s
     \<and> same_setup s s1"
proof -
  have t: "truthy (class_storageKey cls)" using assms(3,4) by (simp add: truthy_def)
  have "\<exists>s1. getAll_op cls ck s = Some (Inr (list_at ck sk (tree s)), s1)
     \<and> tree s1 = tree s \<and> pendingWrites s1 = pendingWrites s \<and> isWriting s1 = isWriting s
     \<and> promises s1 = promises s \<and> next_promise s1 = next_promise s
     \<and> write_calls s1 = write_calls s \<and> writeTimeout s1 = writeTimeout s
     \<and> same_setup s s1"
    using assms(1,2,3,5) t
    by (auto simp: getAll_op_def Let_def getFromCache_def initializeDatabase_def load_database_def
        coherent_def reliable_def isInitialized_def tree_def list_at_def same_setup_def
        setCache_def evictOldestEntries_def split: option.splits cached.splits)
  then show ?thesis
    using assms(1) by (auto simp: getAll_def executeWithRetry_first)
qed


lemma storeData_then_await:
  assumes "\<not> isWriting s" and "reliable s" and "wf_promises s"
    and "w = \<lparr>pw_collectionKey = ck, pw_storageKey = sk, pw_data = obj,
               pw_promise = next_promise s\<rparr>"
    and "config s \<noteq> None"
  shows "\<exists>s2. await_write (fst (storeData ck sk obj s)) (snd (storeData ck sk obj s))
          = Some (Inr (), s2)
     \<and> pendingWrites s2 = []
     \<and> dbInstance s2 = Some (apply_batch (pendingWrites s @ [w]) (tree s))
     \<and> cache s2 = cache s \<and> reliable s2 \<and> \<not> isWriting s2
     \<and> config s2 = config s \<and> initialized s2 = initialized s \<and> wf_promises s2
     \<and> write_calls s2 = write_calls s + (length (pendingWrites s) + MAX_BATCH_SIZE) div MAX_BATCH_SIZE"
proof -
  let ?p = "next_promise s"
  let ?s1 = "snd (storeData ck sk obj s)"
  let ?q = "pendingWrites s"
  have fst_p: "fst (storeData ck sk obj s) = ?p"
    by (simp add: storeData_def Let_def)
  have pw: "pw_promise w = ?p" by (simp add: assms(4))
  have f1: "\<not> isWriting ?s1" "reliable ?s1" "writeTimeout ?s1 \<noteq> None"
    "pendingWrites ?s1 = ?q @ [w]" "promises ?s1 = promises s" "tree ?s1 = tree s"
    "cache ?s1 = cache s" "config ?s1 = config s" "initialized ?s1 = initialized s"
    "next_promise ?s1 = ?p + 1" "write_calls ?s1 = write_calls s"
    using assms(1,2)
    by (simp_all add: storeData_def scheduleBatchWrite_def Let_def reliable_def tree_def assms(4)
        split: option.splits)
  have unsettled: "settled (pw_promise w) ?s1 = None"
    using assms(3) by (force simp: pw settled_def f1(5) wf_promises_def map_of_eq_None_iff)
  have fresh: "pw_promise w \<notin> pw_promise ` set ?q"
    using assms(3) by (force simp: pw wf_promises_def)
  have cfg1: "config ?s1 \<noteq> None" using assms(5) f1(8) by simp
  from await_drains [OF f1(1,2,3,4) unsettled fresh cfg1]
  obtain s2 where s2: "await_promise (pw_promise w) ?s1 = Some s2
      \<and> pendingWrites s2 = []
      \<and> dbInstance s2 = Some (apply_batch (?q @ [w]) (tree ?s1))
      \<and> disk s2 = apply_batch (?q @ [w]) (tree ?s1)
      \<and> write_calls s2 = write_calls ?s1 + (length ?q + MAX_BATCH_SIZE) div MAX_BATCH_SIZE
      \<and> promises s2 = promises ?s1 @ map (\<lambda>x. (pw_promise x, Resolved)) (?q @ [w])
      \<and> cache s2 = cache ?s1 \<and> reliable s2 \<and> \<not> isWriting s2
      \<and> config s2 = config ?s1 \<and> initialized s2 = initialized ?s1
      \<and> next_promise s2 = next_promise ?s1" ..
  have res: "settled ?p s2 = Some Resolved"
    using settled_append [OF unsettled, of "?q @ [w]"] s2
    by (simp add: settled_def pw)
  have aw: "await_write ?p ?s1 = Some (Inr (), s2)"
    using s2 res by (simp add: await_write_def pw)
  have wf2: "wf_promises s2"
    using s2 assms(3) by (auto simp: wf_promises_def f1 pw less_Suc_eq)
  show ?thesis
    using aw s2 wf2 by (simp add: fst_p f1)
qed

lemma store_reliable:
  assumes "isInitialized s" and "reliable s" and "\<not> isWriting s" and "wf_promises s"
    and "config s = Some c" and "entityRegistry c = Some registry"
    and "getRegistrationForInstance registry obj = Some r"
    and "w = \<lparr>pw_collectionKey = getCollectionKey r obj, pw_storageKey = reg_storageKey r,
               pw_data = obj, pw_promise = next_promise s\<rparr>"
  shows "\<exists>s'. store obj s = Some (Inr (), s')
     \<and> pendingWrites s' = []
     \<and> dbInstance s' = Some (apply_batch (pendingWrites s @ [w]) (tree s))
     \<and> cache s' = filter (\<lambda>(k, e). \<not> prefix
            (getCacheKey (reg_storageKey r) (getCollectionKey r obj) None) k) (cache s)
     \<and> reliable s' \<and> \<not> isWriting s' \<and> isInitialized s' \<and> wf_promises s'
     \<and> config s' = config s"
proof -
  let ?ck = "getCollectionKey r obj"
  let ?sk = "reg_storageKey r"
  have cfg: "config s \<noteq> None" using assms(5) by simp
  from storeData_then_await [OF assms(3,2,4,8) cfg]
  obtain s2 where s2: "await_write (fst (storeData ?ck ?sk obj s)) (snd (storeData ?ck ?sk obj s))
          = Some (Inr (), s2)
     \<and> pendingWrites s2 = []
     \<and> dbInstance s2 = Some (apply_batch (pendingWrites s @ [w]) (tree s))
     \<and> cache s2 = cache s \<and> reliable s2 \<and> \<not> isWriting s2
     \<and> config s2 = config s \<and> initialized s2 = initialized s \<and> wf_promises s2
     \<and> write_calls s2 = write_calls s + (length (pendingWrites s) + MAX_BATCH_SIZE) div MAX_BATCH_SIZE" ..
  let ?s' = "clearCacheByPattern (getCacheKey ?sk ?ck None) s2"
  have "store_op obj s = Some (Inr (), ?s')"
    using assms(5,6,7) s2
    by (cases "storeData ?ck ?sk obj s") (simp add: store_op_def Let_def)
  then have "store obj s = Some (Inr (), ?s')"
    using assms(1) by (simp add: store_def executeWithRetry_first)
  moreover have "reliable ?s'" "isInitialized ?s'" "wf_promises ?s'" "\<not> isWriting ?s'"
    using s2 assms(1)
    by (simp_all add: reliable_def isInitialized_def wf_promises_def clearCacheByPattern_def Let_def)
  ultimately show ?thesis
    using s2 by (simp add: cache_clearCacheByPattern)
qed


lemma findIndex_None_iff: "findIndex P xs = None \<longleftrightarrow> \<not> (\<exists>x \<in> set xs. P x)"
  by (induction xs) (auto split: option.splits)


lemma findIndex_Some:
  "findIndex P xs = Some i \<Longrightarrow> i < length xs \<and> P (xs ! i) \<and> (\<forall>j < i. \<not> P (xs ! j))"
proof (induction xs arbitrary: i)
  case Nil
  then show ?case by simp
next
  case (Cons x xs)
  show ?case
  proof (cases "P x")
    case True
    with Cons.prems show ?thesis by simp
  next
    case False
    with Cons.prems obtain k where k: "findIndex P xs = Some k" and i: "i = Suc k"
      by (auto split: option.splits)
    from Cons.IH [OF k] False i show ?thesis
      by (auto simp: nth_Cons split: nat.splits)
  qed
qed

lemma mutate_cached_fields [simp]:
  "dbInstance (mutate_cached k xs s) = dbInstance s"
  "config (mutate_cached k xs s) = config s"
  "initialized (mutate_cached k xs s) = initialized s"
  "write_calls (mutate_cached k xs s) = write_calls s"
  "write_script (mutate_cached k xs s) = write_script s"
  "load_error (mutate_cached k xs s) = load_error s"
  "pendingWrites (mutate_cached k xs s) = pendingWrites s"
  "isWriting (mutate_cached k xs s) = isWriting s"
  "promises (mutate_cached k xs s) = promises s"
  "next_promise (mutate_cached k xs s) = next_promise s"
  "disk (mutate_cached k xs s) = disk s"
  by (simp_all add: mutate_cached_def)

text \<open>A collection is invalidated when the cache holds no entry whose key starts with
  the key of the collection.\<close>

definition invalidated :: "string \<Rightarrow> string \<Rightarrow> repo \<Rightarrow> bool" where
  "invalidated sk ck s = (\<forall>k. prefix (getCacheKey sk ck None) k \<longrightarrow> map_of (cache s) k = None)"

lemma invalidated_clear: "invalidated sk ck (clearCacheByPattern (getCacheKey sk ck None) s)"
  by (simp add: invalidated_def map_of_cleared)

lemma entity_key_prefix: "prefix (getCacheKey sk ck None) (getCacheKey sk ck sfx)"
  by (simp add: getCacheKey_def truthy_def)

lemma storeUnique_insert:
  assumes "isInitialized s" and "reliable s" and "\<not> isWriting s" and "wf_promises s"
    and "config s = Some c" and "entityRegistry c = Some registry"
    and "getRegistrationForInstance registry obj = Some r"
    and "class_storageKey (ent_class obj) = Some (reg_storageKey r)" and "reg_storageKey r \<noteq> []"
    and "coherent (getCollectionKey r obj) (reg_storageKey r) s"
    and "\<not> (\<exists>x \<in> set (list_at (getCollectionKey r obj) (reg_storageKey r) (tree s)).
            ent_id x = ent_id obj)"
    and "w = \<lparr>pw_collectionKey = getCollectionKey r obj, pw_storageKey = reg_storageKey r,
               pw_data = obj, pw_promise = next_promise s\<rparr>"
  shows "\<exists>s'. storeUnique obj s = Some (Inr False, s')
     \<and> pendingWrites s' = []
     \<and> dbInstance s' = Some (apply_batch (pendingWrites s @ [w]) (tree s))
     \<and> invalidated (reg_storageKey r) (getCollectionKey r obj) s'
     \<and> reliable s' \<and> \<not> isWriting s' \<and> isInitialized s' \<and> wf_promises s'
     \<and> config s' = config s"
proof -
  let ?ck = "getCollectionKey r obj"
  let ?sk = "reg_storageKey r"
  let ?key = "getCacheKey ?sk ?ck None"
  let ?old = "list_at ?ck ?sk (tree s)"
  from getAll_coherent [OF assms(1,2,8,9,10)]
  obtain s1 where s1: "getAll (ent_class obj) ?ck s = Some (Inr ?old, s1)
     \<and> tree s1 = tree s \<and> pendingWrites s1 = pendingWrites s \<and> isWriting s1 = isWriting s
     \<and> promises s1 = promises s \<and> next_promise s1 = next_promise s
     \<and> write_calls s1 = write_calls s \<and> writeTimeout s1 = writeTimeout s
     \<and> same_setup s s1" ..
  have rel1: "reliable s1" using s1 assms(2) reliable_same_setup by blast
  have nw1: "\<not> isWriting s1" using s1 assms(3) by simp
  have wf1: "wf_promises s1" using s1 assms(4) by (simp add: wf_promises_def)
  have w1: "w = \<lparr>pw_collectionKey = ?ck, pw_storageKey = ?sk, pw_data = obj,
               pw_promise = next_promise s1\<rparr>"
    using s1 assms(12) by simp
  have cfg1: "config s1 = Some c" using s1 assms(5) by (simp add: same_setup_def)
  have cfg1': "config s1 \<noteq> None" using cfg1 by simp
  from storeData_then_await [OF nw1 rel1 wf1 w1 cfg1']
  obtain s2 where s2: "await_write (fst (storeData ?ck ?sk obj s1)) (snd (storeData ?ck ?sk obj s1))
          = Some (Inr (), s2)
     \<and> pendingWrites s2 = []
     \<and> dbInstance s2 = Some (apply_batch (pendingWrites s1 @ [w]) (tree s1))
     \<and> cache s2 = cache s1 \<and> reliable s2 \<and> \<not> isWriting s2
     \<and> config s2 = config s1 \<and> initialized s2 = initialized s1 \<and> wf_promises s2
     \<and> write_calls s2 = write_calls s1 + (length (pendingWrites s1) + MAX_BATCH_SIZE) div MAX_BATCH_SIZE" ..
  let ?s' = "clearCacheByPattern ?key s2"
  have none: "findIndex (\<lambda>item. ent_id item = ent_id obj) ?old = None"
    using assms(11) by (simp add: findIndex_None_iff)
  have "storeUnique_op obj s = Some (Inr False, ?s')"
    using assms(5,6,7) s1 s2 none
    by (cases "storeData ?ck ?sk obj s1") (simp add: storeUnique_op_def Let_def)
  then have "storeUnique obj s = Some (Inr False, ?s')"
    using assms(1) by (simp add: storeUnique_def executeWithRetry_first)
  moreover have "reliable ?s'" "isInitialized ?s'" "wf_promises ?s'" "\<not> isWriting ?s'"
    using s2 s1 assms(1)
    by (simp_all add: reliable_def isInitialized_def wf_promises_def clearCacheByPattern_def Let_def
        same_setup_def)
  ultimately show ?thesis
    using s2 s1 cfg1 assms(5) by (simp add: invalidated_clear)
qed

lemma storeUnique_update:
  assumes "isInitialized s" and "reliable s"
    and "config s = Some c" and "entityRegistry c = Some registry"
    and "getRegistrationForInstance registry obj = Some r"
    and "class_storageKey (ent_class obj) = Some (reg_storageKey r)" and "reg_storageKey r \<noteq> []"
    and "coherent (getCollectionKey r obj) (reg_storageKey r) s"
    and "findIndex (\<lambda>item. ent_id item = ent_id obj)
           (list_at (getCollectionKey r obj) (reg_storageKey r) (tree s)) = Some i"
  shows "\<exists>s'. storeUnique obj s = Some (Inr True, s')
     \<and> stored (getCollectionKey r obj) (reg_storageKey r) s'
         = Some ((list_at (getCollectionKey r obj) (reg_storageKey r) (tree s))[i := obj])
     \<and> invalidated (reg_storageKey r) (getCollectionKey r obj) s'
     \<and> isInitialized s'
     \<and> write_calls s' = write_calls s + 1"
proof -
  let ?ck = "getCollectionKey r obj"
  let ?sk = "reg_storageKey r"
  let ?key = "getCacheKey ?sk ?ck None"
  let ?old = "list_at ?ck ?sk (tree s)"
  have t: "truthy (class_storageKey (ent_class obj))"
    using assms(6,7) by (simp add: truthy_def)
  from getAll_coherent [OF assms(1,2,6,7,8)]
  obtain s1 where s1: "getAll (ent_class obj) ?ck s = Some (Inr ?old, s1)
     \<and> tree s1 = tree s \<and> pendingWrites s1 = pendingWrites s \<and> isWriting s1 = isWriting s
     \<and> promises s1 = promises s \<and> next_promise s1 = next_promise s
     \<and> write_calls s1 = write_calls s \<and> writeTimeout s1 = writeTimeout s
     \<and> same_setup s s1" ..
  let ?s2 = "mutate_cached ?key (?old[i := obj]) s1"
  have init2: "isInitialized ?s2"
    using s1 assms(1) by (simp add: isInitialized_def same_setup_def)
  have rel2: "reliable ?s2"
    using s1 assms(2) by (simp add: reliable_def same_setup_def)
  from replaceAll_reliable [OF init2 rel2 t, of ?ck "?old[i := obj]"]
  obtain s3 where s3: "replaceAll (ent_class obj) ?ck (?old[i := obj]) ?s2 = Some (Inr (), s3)
     \<and> stored ?ck (the (class_storageKey (ent_class obj))) s3 = Some (?old[i := obj])
     \<and> cache s3 = filter (\<lambda>(k, e). \<not> prefix
          (getCacheKey (the (class_storageKey (ent_class obj))) ?ck None) k) (cache ?s2)
     \<and> write_calls s3 = write_calls ?s2 + 1
     \<and> disk s3 = the (dbInstance s3)
     \<and> same_setup ?s2 s3" ..
  let ?s' = "clearCacheByPattern ?key s3"
  have "storeUnique_op obj s = Some (Inr True, ?s')"
    using assms(3,4,5,6,9) s1 s3
    by (simp add: storeUnique_op_def Let_def)
  then have "storeUnique obj s = Some (Inr True, ?s')"
    using assms(1) by (simp add: storeUnique_def executeWithRetry_first)
  moreover have "stored ?ck ?sk ?s' = Some (?old[i := obj])"
    using s3 assms(6) by (simp add: stored_def)
  moreover have "write_calls ?s' = write_calls s + 1"
    using s3 s1 by simp
  moreover have "isInitialized ?s'"
    using s3 init2 by (simp add: isInitialized_def same_setup_def)
  ultimately show ?thesis
    by (simp add: invalidated_clear)
qed


definition demo_registration :: EntityRegistration where
  "demo_registration = \<lparr>reg_storageKey = ''scores'', getCollectionKey = (\<lambda>e. ''g1'')\<rparr>"


lemma demo_registered:
  "getRegistrationForInstance demo_registry (score i ts v) = Some demo_registration"
  "class_storageKey (ent_class (score i ts v)) = Some (reg_storageKey demo_registration)"
  "reg_storageKey demo_registration \<noteq> []"
  "getCollectionKey demo_registration e = ''g1''"
  "reg_storageKey demo_registration = ''scores''"
  by (simp_all add: getRegistrationForInstance_def demo_registration_def demo_registry_def
      score_def Score_def)

section \<open>Upsert by id\<close>





section \<open>Invalidation by the mutating operations\<close>

lemma read_after_invalidation:
  assumes "isInitialized s" and "class_storageKey cls = Some sk" and "sk \<noteq> []"
    and "invalidated sk ck s" and "stored ck sk s = Some xs"
  shows "\<exists>s'. getAll cls ck s = Some (Inr xs, s')
     \<and> misses s' = misses s + (if caching s then 1 else 0) \<and> hits s' = hits s"
proof -
  have k: "map_of (cache s) (getCacheKey sk ck None) = None"
    using assms(4) by (simp add: invalidated_def)
  have db: "dbInstance s \<noteq> None"
    using assms(5) by (auto simp: stored_def split: option.splits)
  have "\<exists>s'. getAll_op cls ck s = Some (Inr xs, s')
     \<and> misses s' = misses s + (if caching s then 1 else 0) \<and> hits s' = hits s"
    using assms(1,2,3,5) k db
    by (auto simp: getAll_op_def Let_def truthy_def getFromCache_def initializeDatabase_def
        load_database_def isInitialized_def stored_def setCache_def evictOldestEntries_def
        caching_def split: option.splits)
  then show ?thesis
    using assms(1) by (auto simp: getAll_def executeWithRetry_first)
qed

lemma replaceAll_invalidates:
  assumes "isInitialized s" and "reliable s" and "class_storageKey cls = Some sk" and "sk \<noteq> []"
  shows "\<exists>s'. replaceAll cls ck xs s = Some (Inr (), s')
     \<and> invalidated sk ck s' \<and> isInitialized s' \<and> stored ck sk s' = Some xs"
proof -
  have t: "truthy (class_storageKey cls)" using assms(3,4) by (simp add: truthy_def)
  from replaceAll_reliable [OF assms(1,2) t, of ck xs]
  obtain s' where s': "replaceAll cls ck xs s = Some (Inr (), s')
     \<and> stored ck (the (class_storageKey cls)) s' = Some xs
     \<and> cache s' = filter (\<lambda>(k, e). \<not> prefix (getCacheKey (the (class_storageKey cls)) ck None) k) (cache s)
     \<and> write_calls s' = write_calls s + 1
     \<and> disk s' = the (dbInstance s')
     \<and> same_setup s s'" ..
  have "invalidated sk ck s'"
    using s' assms(3) by (auto simp: invalidated_def map_of_eq_None_iff)
  moreover have "isInitialized s'"
    using s' assms(1) by (simp add: isInitialized_def same_setup_def)
  ultimately show ?thesis
    using s' assms(3) by auto
qed

lemma deleteById_invalidates:
  assumes "isInitialized s" and "reliable s" and "class_storageKey cls = Some sk" and "sk \<noteq> []"
    and "coherent ck sk s"
  shows "\<exists>v s'. deleteById cls ck objectId s = Some (Inr v, s')
     \<and> (v \<longrightarrow> invalidated sk ck s' \<and> isInitialized s'
            \<and> stored ck sk s'
                = Some (filter (\<lambda>x. ent_id x \<noteq> Some objectId) (list_at ck sk (tree s))))"
proof -
  let ?old = "list_at ck sk (tree s)"
  let ?upd = "filter (\<lambda>x. ent_id x \<noteq> Some objectId) ?old"
  let ?key = "getCacheKey sk ck None"
  from getAll_coherent [OF assms(1,2,3,4,5)]
  obtain s1 where s1: "getAll cls ck s = Some (Inr ?old, s1)
     \<and> tree s1 = tree s \<and> pendingWrites s1 = pendingWrites s \<and> isWriting s1 = isWriting s
     \<and> promises s1 = promises s \<and> next_promise s1 = next_promise s
     \<and> write_calls s1 = write_calls s \<and> writeTimeout s1 = writeTimeout s
     \<and> same_setup s s1" ..
  have init1: "isInitialized s1" using s1 assms(1) by (simp add: isInitialized_def same_setup_def)
  have rel1: "reliable s1" using s1 assms(2) reliable_same_setup by blast
  show ?thesis
  proof (cases "length ?upd = length ?old")
    case True
    then have "deleteById_op cls ck objectId s = Some (Inr False, s1)"
      using s1 by (simp add: deleteById_op_def Let_def)
    then have "deleteById cls ck objectId s = Some (Inr False, s1)"
      using assms(1) by (simp add: deleteById_def executeWithRetry_first)
    then show ?thesis by auto
  next
    case False
    from replaceAll_invalidates [OF init1 rel1 assms(3,4), of ck ?upd]
    obtain s2 where s2: "replaceAll cls ck ?upd s1 = Some (Inr (), s2)
       \<and> invalidated sk ck s2 \<and> isInitialized s2 \<and> stored ck sk s2 = Some ?upd" ..
    let ?s3 = "clearCacheByPattern ?key s2"
    have "deleteById_op cls ck objectId s = Some (Inr True, ?s3)"
      using s1 s2 False assms(3,4) by (simp add: deleteById_op_def Let_def truthy_def)
    then have "deleteById cls ck objectId s = Some (Inr True, ?s3)"
      using assms(1) by (simp add: deleteById_def executeWithRetry_first)
    moreover have "isInitialized ?s3" "stored ck sk ?s3 = Some ?upd"
      using s2 by (simp_all add: isInitialized_def stored_def)
    ultimately show ?thesis
      using invalidated_clear [of sk ck s2] by blast
  qed
qed

lemma purgeStaleItems_invalidates:
  assumes "isInitialized s" and "reliable s" and "class_storageKey cls = Some sk" and "sk \<noteq> []"
    and "coherent ck sk s"
  shows "\<exists>n s'. purgeStaleItems cutoffISO cls ck maxAgeHours s = Some (Inr n, s')
     \<and> (0 < n \<longrightarrow> invalidated sk ck s' \<and> isInitialized s'
            \<and> (\<exists>cutoff. stored ck sk s'
                = Some (filter (is_fresh cutoff) (list_at ck sk (tree s)))))"
proof -
  let ?old = "list_at ck sk (tree s)"
  from getAll_coherent [OF assms(1,2,3,4,5)]
  obtain s1 where s1: "getAll cls ck s = Some (Inr ?old, s1)
     \<and> tree s1 = tree s \<and> pendingWrites s1 = pendingWrites s \<and> isWriting s1 = isWriting s
     \<and> promises s1 = promises s \<and> next_promise s1 = next_promise s
     \<and> write_calls s1 = write_calls s \<and> writeTimeout s1 = writeTimeout s
     \<and> same_setup s s1" ..
  let ?cutoff = "cutoffISO (now s1) maxAgeHours"
  let ?fresh = "filter (is_fresh ?cutoff) ?old"
  have init1: "isInitialized s1" using s1 assms(1) by (simp add: isInitialized_def same_setup_def)
  have rel1: "reliable s1" using s1 assms(2) reliable_same_setup by blast
  have t: "truthy (class_storageKey cls)" using assms(3,4) by (simp add: truthy_def)
  show ?thesis
  proof (cases "0 < length ?old - length ?fresh")
    case False
    then have "purgeStaleItems_op cutoffISO cls ck maxAgeHours s
        = Some (Inr (length ?old - length ?fresh), s1)"
      using s1 t by (simp add: purgeStaleItems_op_def Let_def)
    then have "purgeStaleItems cutoffISO cls ck maxAgeHours s
        = Some (Inr (length ?old - length ?fresh), s1)"
      using assms(1) by (simp add: purgeStaleItems_def executeWithRetry_first)
    then show ?thesis using False by auto
  next
    case True
    from replaceAll_invalidates [OF init1 rel1 assms(3,4), of ck ?fresh]
    obtain s2 where s2: "replaceAll cls ck ?fresh s1 = Some (Inr (), s2)
       \<and> invalidated sk ck s2 \<and> isInitialized s2 \<and> stored ck sk s2 = Some ?fresh" ..
    have "purgeStaleItems_op cutoffISO cls ck maxAgeHours s
        = Some (Inr (length ?old - length ?fresh), s2)"
      using s1 s2 t True by (simp add: purgeStaleItems_op_def Let_def)
    then have "purgeStaleItems cutoffISO cls ck maxAgeHours s
        = Some (Inr (length ?old - length ?fresh), s2)"
      using assms(1) by (simp add: purgeStaleItems_def executeWithRetry_first)
    then show ?thesis
      using s2 by auto
  qed
qed


text \<open>The next read of a collection misses the cache and returns a given list.\<close>

definition rereads :: "EntityClass \<Rightarrow> string \<Rightarrow> entity list \<Rightarrow> repo \<Rightarrow> bool" where
  "rereads cls ck xs s = (\<exists>s'. getAll cls ck s = Some (Inr xs, s')
     \<and> misses s' = misses s + (if caching s then 1 else 0) \<and> hits s' = hits s)"

lemma rereads_after_invalidation:
  "isInitialized s \<Longrightarrow> class_storageKey cls = Some sk \<Longrightarrow> sk \<noteq> [] \<Longrightarrow>
   invalidated sk ck s \<Longrightarrow> stored ck sk s = Some xs \<Longrightarrow> rereads cls ck xs s"
  unfolding rereads_def by (rule read_after_invalidation)

definition warm_repo :: "entity list \<Rightarrow> repo" where
  "warm_repo xs = the (state_of (getAll Score ''g1'' (demo_repo xs)))"

lemma warm_repo_eq:
  "warm_repo xs = (demo_repo xs)\<lparr>dbInstance := Some (demo_file xs),
      cache := [(''scores:g1'', \<lparr>ce_data = CachedList xs, expiresAt = 300000, accessCount = 1,
                  lastAccessed = 0\<rparr>)],
      misses := 1\<rparr>"
  by (simp add: warm_repo_def state_of_def demo_defs read_defs)

lemma warm_ready:
  "isInitialized (warm_repo xs)" "reliable (warm_repo xs)" "\<not> isWriting (warm_repo xs)"
  "wf_promises (warm_repo xs)"
  "config (warm_repo xs) = Some (the (config (warm_repo xs)))"
  "entityRegistry (the (config (warm_repo xs))) = Some demo_registry"
  "coherent ''g1'' ''scores'' (warm_repo xs)"
  "map_of (cache (warm_repo xs)) ''scores:g1'' \<noteq> None"
  by (simp_all add: warm_repo_eq isInitialized_def reliable_def wf_promises_def coherent_def
      getCacheKey_def truthy_def list_at_def tree_def demo_defs)

text \<open>
  C8. Take an initialized repository over a reliable store, with no flush in flight
  and the cached read of the collection, if any, coherent. Each mutating operation on
  a storage key and collection key that completes (\<^verbatim>\<open>store\<close> and \<^verbatim>\<open>storeUnique\<close> of a
  registered entity of that pair, \<^verbatim>\<open>replaceAll\<close>, a \<^verbatim>\<open>deleteById\<close> that removed a record,
  a \<^verbatim>\<open>purgeStaleItems\<close> that purged one) leaves the cache without any entry whose key
  starts with the key of the collection, and the per-entity keys start with it. The
  next read of the collection then misses the cache and returns the list as the
  mutation left it.
\<close>

theorem mutations_invalidate_cache:
  assumes "isInitialized s" and "reliable s" and "\<not> isWriting s" and "wf_promises s"
    and "config s = Some c" and "entityRegistry c = Some registry"
    and "getRegistrationForInstance registry obj = Some r"
    and "ent_class obj = cls" and "class_storageKey cls = Some sk" and "sk \<noteq> []"
    and "reg_storageKey r = sk" and "getCollectionKey r obj = ck"
    and "coherent ck sk s"
  shows "(\<exists>s'. store obj s = Some (Inr (), s') \<and> invalidated sk ck s'
           \<and> (\<exists>xs. rereads cls ck (xs @ [obj]) s'))
    \<and> (\<exists>v s'. storeUnique obj s = Some (Inr v, s') \<and> invalidated sk ck s'
           \<and> (\<exists>xs. rereads cls ck xs s' \<and> obj \<in> set xs))
    \<and> (\<exists>s'. replaceAll cls ck objects s = Some (Inr (), s') \<and> invalidated sk ck s'
           \<and> rereads cls ck objects s')
    \<and> (\<exists>v s'. deleteById cls ck objectId s = Some (Inr v, s')
           \<and> (v \<longrightarrow> invalidated sk ck s'
                \<and> rereads cls ck (filter (\<lambda>x. ent_id x \<noteq> Some objectId) (list_at ck sk (tree s))) s'))
    \<and> (\<exists>n s'. purgeStaleItems cutoffISO cls ck maxAgeHours s = Some (Inr n, s')
           \<and> (0 < n \<longrightarrow> invalidated sk ck s'
                \<and> (\<exists>cutoff. rereads cls ck (filter (is_fresh cutoff) (list_at ck sk (tree s))) s')))
    \<and> (\<forall>sfx. prefix (getCacheKey sk ck None) (getCacheKey sk ck sfx))"
proof -
  let ?old = "list_at ck sk (tree s)"
  let ?w = "\<lparr>pw_collectionKey = getCollectionKey r obj, pw_storageKey = reg_storageKey r,
               pw_data = obj, pw_promise = next_promise s\<rparr>"
  note rr = rereads_after_invalidation [OF _ assms(9,10)]
  have tw: "targets ck sk ?w" by (simp add: targets_def assms(11,12))
  have cls_r: "class_storageKey (ent_class obj) = Some (reg_storageKey r)"
    and sk_r: "reg_storageKey r \<noteq> []"
    and coh_r: "coherent (getCollectionKey r obj) (reg_storageKey r) s"
    using assms(8,9,10,11,12,13) by simp_all
  have appended: "stored ck sk s' = Some ((?old @ map pw_data (filter (targets ck sk) (pendingWrites s))) @ [obj])"
    if "dbInstance s' = Some (apply_batch (pendingWrites s @ [?w]) (tree s))" for s'
    using stored_apply_batch [OF that, of ck sk] tw by simp
  \<comment> \<open>store\<close>
  from store_reliable [OF assms(1,2,3,4,5,6,7) refl]
  obtain s1 where s1: "store obj s = Some (Inr (), s1)
     \<and> pendingWrites s1 = []
     \<and> dbInstance s1 = Some (apply_batch (pendingWrites s @ [?w]) (tree s))
     \<and> cache s1 = filter (\<lambda>(k, e). \<not> prefix
            (getCacheKey (reg_storageKey r) (getCollectionKey r obj) None) k) (cache s)
     \<and> reliable s1 \<and> \<not> isWriting s1 \<and> isInitialized s1 \<and> wf_promises s1
     \<and> config s1 = config s" ..
  have inv1: "invalidated sk ck s1"
    using s1 by (auto simp: invalidated_def map_of_eq_None_iff assms(11,12))
  have "rereads cls ck ((?old @ map pw_data (filter (targets ck sk) (pendingWrites s))) @ [obj]) s1"
    using s1 inv1 appended by (intro rr) simp_all
  then have A: "\<exists>s'. store obj s = Some (Inr (), s') \<and> invalidated sk ck s'
           \<and> (\<exists>xs. rereads cls ck (xs @ [obj]) s')"
    using s1 inv1 by blast
  \<comment> \<open>storeUnique\<close>
  have B: "\<exists>v s'. storeUnique obj s = Some (Inr v, s') \<and> invalidated sk ck s'
           \<and> (\<exists>xs. rereads cls ck xs s' \<and> obj \<in> set xs)"
  proof (cases "findIndex (\<lambda>item. ent_id item = ent_id obj) ?old")
    case None
    then have absent: "\<not> (\<exists>x \<in> set (list_at (getCollectionKey r obj) (reg_storageKey r) (tree s)).
            ent_id x = ent_id obj)"
      by (simp add: findIndex_None_iff assms(11,12))
    from storeUnique_insert [OF assms(1,2,3,4,5,6,7) cls_r sk_r coh_r absent refl]
    obtain s2 where s2: "storeUnique obj s = Some (Inr False, s2)
     \<and> pendingWrites s2 = []
     \<and> dbInstance s2 = Some (apply_batch (pendingWrites s @ [?w]) (tree s))
     \<and> invalidated (reg_storageKey r) (getCollectionKey r obj) s2
     \<and> reliable s2 \<and> \<not> isWriting s2 \<and> isInitialized s2 \<and> wf_promises s2
     \<and> config s2 = config s" ..
    have inv2: "invalidated sk ck s2" using s2 by (simp add: assms(11,12))
    have "rereads cls ck ((?old @ map pw_data (filter (targets ck sk) (pendingWrites s))) @ [obj]) s2"
      using s2 inv2 appended by (intro rr) simp_all
    moreover have "obj \<in> set ((?old @ map pw_data (filter (targets ck sk) (pendingWrites s))) @ [obj])"
      by simp
    ultimately show ?thesis
      using s2 inv2 by blast
  next
    case (Some i)
    then have idx: "findIndex (\<lambda>item. ent_id item = ent_id obj)
           (list_at (getCollectionKey r obj) (reg_storageKey r) (tree s)) = Some i"
      by (simp add: assms(11,12))
    from storeUnique_update [OF assms(1,2,5,6,7) cls_r sk_r coh_r idx]
    obtain s2 where s2: "storeUnique obj s = Some (Inr True, s2)
     \<and> stored (getCollectionKey r obj) (reg_storageKey r) s2
         = Some ((list_at (getCollectionKey r obj) (reg_storageKey r) (tree s))[i := obj])
     \<and> invalidated (reg_storageKey r) (getCollectionKey r obj) s2
     \<and> isInitialized s2
     \<and> write_calls s2 = write_calls s + 1" ..
    have inv2: "invalidated sk ck s2" using s2 by (simp add: assms(11,12))
    have "rereads cls ck (?old[i := obj]) s2"
      using s2 inv2 by (intro rr) (simp_all add: assms(11,12))
    moreover have "obj \<in> set (?old[i := obj])"
      using findIndex_Some [OF Some] by (simp add: set_update_memI)
    ultimately show ?thesis
      using s2 inv2 by blast
  qed
  \<comment> \<open>replaceAll\<close>
  from replaceAll_invalidates [OF assms(1,2,9,10), of ck objects]
  obtain s3 where s3: "replaceAll cls ck objects s = Some (Inr (), s3)
     \<and> invalidated sk ck s3 \<and> isInitialized s3 \<and> stored ck sk s3 = Some objects" ..
  have "rereads cls ck objects s3"
    using s3 by (intro rr) simp_all
  then have C: "\<exists>s'. replaceAll cls ck objects s = Some (Inr (), s') \<and> invalidated sk ck s'
           \<and> rereads cls ck objects s'"
    using s3 by blast
  \<comment> \<open>deleteById\<close>
  from deleteById_invalidates [OF assms(1,2,9,10,13), of objectId]
  obtain v s4 where s4: "deleteById cls ck objectId s = Some (Inr v, s4)
     \<and> (v \<longrightarrow> invalidated sk ck s4 \<and> isInitialized s4
            \<and> stored ck sk s4
                = Some (filter (\<lambda>x. ent_id x \<noteq> Some objectId) ?old))" by blast
  have "v \<longrightarrow> rereads cls ck (filter (\<lambda>x. ent_id x \<noteq> Some objectId) ?old) s4"
    using s4 rr by blast
  then have D: "\<exists>v s'. deleteById cls ck objectId s = Some (Inr v, s')
           \<and> (v \<longrightarrow> invalidated sk ck s'
                \<and> rereads cls ck (filter (\<lambda>x. ent_id x \<noteq> Some objectId) ?old) s')"
    using s4 by blast
  \<comment> \<open>purgeStaleItems\<close>
  from purgeStaleItems_invalidates [OF assms(1,2,9,10,13), of cutoffISO maxAgeHours]
  obtain n s5 where s5: "purgeStaleItems cutoffISO cls ck maxAgeHours s = Some (Inr n, s5)
     \<and> (0 < n \<longrightarrow> invalidated sk ck s5 \<and> isInitialized s5
            \<and> (\<exists>cutoff. stored ck sk s5 = Some (filter (is_fresh cutoff) ?old)))" by blast
  have "0 < n \<longrightarrow> (\<exists>cutoff. rereads cls ck (filter (is_fresh cutoff) ?old) s5)"
    using s5 rr by blast
  then have E: "\<exists>n s'. purgeStaleItems cutoffISO cls ck maxAgeHours s = Some (Inr n, s')
           \<and> (0 < n \<longrightarrow> invalidated sk ck s'
                \<and> (\<exists>cutoff. rereads cls ck (filter (is_fresh cutoff) ?old) s'))"
    using s5 by blast
  show ?thesis
    using A B C D E entity_key_prefix by blast
qed


theorem mutations_invalidate_cache_witness:
  "\<exists>s' xs. map_of (cache (warm_repo [score ''u0'' ''t'' ''x''])) ''scores:g1'' \<noteq> None
     \<and> store (score ''u1'' ''t'' ''10'') (warm_repo [score ''u0'' ''t'' ''x'']) = Some (Inr (), s')
     \<and> invalidated ''scores'' ''g1'' s'
     \<and> rereads Score ''g1'' (xs @ [score ''u1'' ''t'' ''10'']) s'"
proof -
  let ?s = "warm_repo [score ''u0'' ''t'' ''x'']"
  have cls: "ent_class (score ''u1'' ''t'' ''10'') = Score"
    and key: "class_storageKey Score = Some ''scores''" and ne: "''scores'' \<noteq> []"
    by (simp_all add: score_def Score_def)
  from mutations_invalidate_cache
    [OF warm_ready(1,2,3,4,5,6) demo_registered(1) cls key ne demo_registered(5,4) warm_ready(7)]
  have "\<exists>s'. store (score ''u1'' ''t'' ''10'') ?s = Some (Inr (), s')
      \<and> invalidated ''scores'' ''g1'' s'
      \<and> (\<exists>xs. rereads Score ''g1'' (xs @ [score ''u1'' ''t'' ''10'']) s')"
    by (rule conjunct1)
  then show ?thesis
    using warm_ready(8) [of "[score ''u0'' ''t'' ''x'']"] by blast
qed


section \<open>Failing durable writes\<close>























section \<open>Cache capacity\<close>

text \<open>
  An insert into a full cache first drops the least recently accessed fifth of the
  entries (rounded down), in one pass. With distinct keys and a capacity of at least
  5, the default of 1000 included, the cache never holds more than its capacity.
\<close>

lemma setCache_when_full:
  assumes "config s = Some c" and "enableCaching c" and "maxCacheSize c \<le> length (cache s)"
  shows "cache (setCache key data s)
      = AList.update key
          \<lparr>ce_data = data, expiresAt = now s + cacheTTL c, accessCount = 1, lastAccessed = now s\<rparr>
          (filter (\<lambda>(k, e). k \<notin> fst ` set (take (length (cache s) div 5)
                     (sort_key (\<lambda>(k, e). lastAccessed e) (cache s)))) (cache s))"
    and "evictions (setCache key data s) = evictions s + length (cache s) div 5"
  using assms
  by (simp_all add: setCache_def evictOldestEntries_def Let_def foldl_delete_filter)

lemma length_update_le: "length (AList.update k v al) \<le> Suc (length al)"
  by (induction al) auto

lemma length_after_eviction:
  assumes "distinct (map fst al)" and "n \<le> length al"
  shows "length (filter (\<lambda>(k, e). k \<notin> fst ` set (take n (sort_key f al))) al) = length al - n"
proof -
  let ?V = "take n (sort_key f al)"
  let ?P = "\<lambda>x. fst x \<in> fst ` set ?V"
  have d: "distinct al" using assms(1) by (rule distinct_map [THEN iffD1, THEN conjunct1])
  have dV: "distinct ?V" using d by simp
  have sub: "set ?V \<subseteq> set al" by (metis set_sort set_take_subset)
  have "set (filter ?P al) = set ?V"
  proof (intro equalityI subsetI)
    fix x assume "x \<in> set (filter ?P al)"
    then have inal: "x \<in> set al" and "fst x \<in> fst ` set ?V" by simp_all
    then obtain y where v: "y \<in> set ?V" and k: "fst y = fst x" by force
    with sub have "y \<in> set al" by blast
    with inal assms(1) k have "x = y"
      by (metis eq_key_imp_eq_value prod.collapse)
    with v show "x \<in> set ?V" by simp
  next
    fix x assume "x \<in> set ?V"
    with sub show "x \<in> set (filter ?P al)" by force
  qed
  moreover have "distinct (filter ?P al)" using d by simp
  ultimately have "length (filter ?P al) = length ?V"
    using dV by (metis distinct_card)
  moreover have "length ?V = n" using assms(2) by simp
  moreover have "length (filter ?P al) + length (filter (\<lambda>x. \<not> ?P x) al) = length al"
    by (rule sum_length_filter_compl)
  moreover have "filter (\<lambda>x. \<not> ?P x) al
      = filter (\<lambda>(k, e). k \<notin> fst ` set (take n (sort_key f al))) al"
    by (rule filter_cong) (auto simp: case_prod_beta)
  ultimately show ?thesis by simp
qed

lemma cache_within_capacity:
  assumes "config s = Some c" and "5 \<le> maxCacheSize c"
    and "distinct (map fst (cache s))" and "length (cache s) \<le> maxCacheSize c"
  shows "length (cache (setCache key data s)) \<le> maxCacheSize c
     \<and> distinct (map fst (cache (setCache key data s)))"
proof (cases "enableCaching c")
  case False
  with assms show ?thesis by (simp add: setCache_def)
next
  case True
  let ?entry = "\<lparr>ce_data = data, expiresAt = now s + cacheTTL c, accessCount = 1,
      lastAccessed = now s\<rparr>"
  show ?thesis
  proof (cases "maxCacheSize c \<le> length (cache s)")
    case full: True
    let ?rest = "filter (\<lambda>(k, e). k \<notin> fst ` set (take (length (cache s) div 5)
                     (sort_key (\<lambda>(k, e). lastAccessed e) (cache s)))) (cache s)"
    have c: "cache (setCache key data s) = AList.update key ?entry ?rest"
      by (rule setCache_when_full(1) [OF assms(1) True full])
    have "length ?rest = length (cache s) - length (cache s) div 5"
      by (rule length_after_eviction [OF assms(3)]) simp
    moreover have "5 \<le> length (cache s)" using full assms(2) by simp
    ultimately have "Suc (length ?rest) \<le> length (cache s)" by simp
    then have "length (AList.update key ?entry ?rest) \<le> maxCacheSize c"
      using length_update_le [of key ?entry ?rest] assms(4) by simp
    moreover have "distinct (map fst (AList.update key ?entry ?rest))"
      using assms(3) by (intro AList.distinct_update) (simp add: distinct_map_filter)
    ultimately show ?thesis by (simp add: c)
  next
    case False
    then have c: "cache (setCache key data s) = AList.update key ?entry (cache s)"
      using assms(1) True by (simp add: setCache_def Let_def)
    have "length (AList.update key ?entry (cache s)) \<le> maxCacheSize c"
      using length_update_le [of key ?entry "cache s"] False by simp
    moreover have "distinct (map fst (AList.update key ?entry (cache s)))"
      using assms(3) by (rule AList.distinct_update)
    ultimately show ?thesis by (simp add: c)
  qed
qed

text \<open>A repository whose cache has capacity 3, over a file with four collections.\<close>

definition tiny_config :: ConfigInput where
  "tiny_config = \<lparr>in_databasePath = ''db.json'', in_entityRegistry = None,
     in_enableCaching = None, in_cacheTTL = None, in_maxCacheSize = Some 3\<rparr>"

definition tiny_file :: DatabaseData where
  "tiny_file = Map.empty(
     ''g1'' \<mapsto> Map.empty(''scores'' \<mapsto> [score ''u1'' ''t'' ''a'']),
     ''g2'' \<mapsto> Map.empty(''scores'' \<mapsto> [score ''u2'' ''t'' ''b'']),
     ''g3'' \<mapsto> Map.empty(''scores'' \<mapsto> [score ''u3'' ''t'' ''c'']),
     ''g4'' \<mapsto> Map.empty(''scores'' \<mapsto> [score ''u4'' ''t'' ''d'']))"

definition tiny_repo :: repo where
  "tiny_repo = initialize tiny_config (new_repo tiny_file)"

definition after_read :: "string \<Rightarrow> repo \<Rightarrow> repo" where
  "after_read ck s = the (state_of (getAll Score ck s))"

text \<open>
  C9, at a capacity below 5. With capacity 3 the fourth read of a distinct collection
  finds the cache full, evicts the fifth of 3 rounded down, that is nothing, and
  stores its entry: the cache holds four entries.
\<close>

theorem cache_exceeds_small_capacity:
  "map_option maxCacheSize (config tiny_repo) = Some 3
   \<and> map fst (cache (after_read ''g4'' (after_read ''g3'' (after_read ''g2''
        (after_read ''g1'' tiny_repo)))))
      = [''scores:g1'', ''scores:g2'', ''scores:g3'', ''scores:g4'']
   \<and> evictions (after_read ''g4'' (after_read ''g3'' (after_read ''g2''
        (after_read ''g1'' tiny_repo)))) = 0"
  by (simp add: after_read_def state_of_def tiny_repo_def tiny_config_def tiny_file_def
      initialize_def new_repo_def Score_def evictOldestEntries_def read_defs)


end
